theory Spec2Isabelle
  imports Main "HOL-Library.Monad_Syntax"
begin

section \<open>The B-tree of btree.go, embedded\<close>

text \<open>
  The tree of \<^verbatim>\<open>btree.go\<close> is a pointer structure that is mutated in place. Every node is
  owned by exactly one parent (or is the root, or sits in a free list), so a node is
  modelled as a value and every mutating method returns the node it leaves behind.
  The element order is the caller's \<^verbatim>\<open>Less\<close> method: it is the parameter \<open>lt\<close> of
  every function that compares elements. The zero value of the element type is the
  parameter \<open>zero\<close>. A result \<open>None\<close> stands for a run that does not return normally:
  a run-time panic (an index out of range) or a recursion that never ends.
\<close>

subsection \<open>Slices of items\<close>

text \<open>\<^verbatim>\<open>s[i]\<close>: Go panics when the index is out of range.\<close>

definition nth_opt :: "'a list \<Rightarrow> nat \<Rightarrow> 'a option" where
  "nth_opt s i = (if i < length s then Some (s ! i) else None)"

text \<open>\<^verbatim>\<open>items.insertAt\<close>: the slice grows by one, so an index up to the old length is in range.\<close>

definition items_insertAt :: "'a list \<Rightarrow> nat \<Rightarrow> 'a \<Rightarrow> 'a list option" where
  "items_insertAt s index item =
     (if index \<le> length s then Some (take index s @ item # drop index s) else None)"

text \<open>\<^verbatim>\<open>items.removeAt\<close> returns the removed item and the shortened slice.\<close>

definition items_removeAt :: "'a list \<Rightarrow> nat \<Rightarrow> ('a \<times> 'a list) option" where
  "items_removeAt s index =
     (if index < length s then Some (s ! index, take index s @ drop (Suc index) s) else None)"

text \<open>\<^verbatim>\<open>items.pop\<close> returns the last item and the shortened slice.\<close>

definition items_pop :: "'a list \<Rightarrow> ('a \<times> 'a list) option" where
  "items_pop s = (if s = [] then None else Some (last s, butlast s))"

text \<open>\<^verbatim>\<open>items.truncate\<close>; every call site has already read the slice at an index that
  makes \<open>index \<le> length s\<close>, or truncates to 0.\<close>

definition items_truncate :: "'a list \<Rightarrow> nat \<Rightarrow> 'a list" where
  "items_truncate s index = take index s"

text \<open>\<^verbatim>\<open>sort.Search\<close> of the Go standard library: binary search for the least index in
  \<open>[0, n)\<close> at which \<open>f\<close> holds, the loop \<^verbatim>\<open>for i < j { h := (i+j)/2; ... }\<close>.\<close>

function search_loop :: "nat \<Rightarrow> nat \<Rightarrow> (nat \<Rightarrow> bool) \<Rightarrow> nat" where
  "search_loop i j f =
     (if i < j then
        (let h = (i + j) div 2 in
         if \<not> f h then search_loop (h + 1) j f else search_loop i h f)
      else i)"
  by pat_completeness auto
termination
  by (relation "measure (\<lambda>(i, j, f). j - i)") auto

declare search_loop.simps [simp del]

definition Search :: "nat \<Rightarrow> (nat \<Rightarrow> bool) \<Rightarrow> nat" where
  "Search n f = search_loop 0 n f"

text \<open>\<^verbatim>\<open>items.find\<close>.\<close>

definition items_find :: "('a \<Rightarrow> 'a \<Rightarrow> bool) \<Rightarrow> 'a list \<Rightarrow> 'a \<Rightarrow> nat \<times> bool" where
  "items_find lt s item =
     (let i = Search (length s) (\<lambda>i. lt item (s ! i)) in
      if i > 0 \<and> \<not> lt (s ! (i - 1)) item then (i - 1, True) else (i, False))"

subsection \<open>Nodes and the free list\<close>

datatype 'a node = Node (items: "'a list") (children: "'a node list")

text \<open>\<^verbatim>\<open>FreeList\<close>: the slice of recycled nodes and its capacity.\<close>

record 'a FreeList =
  freelist :: "'a node list"
  capacity :: nat

definition DefaultFreeListSize :: nat where
  "DefaultFreeListSize = 32"

definition NewFreeList :: "nat \<Rightarrow> 'a FreeList" where
  "NewFreeList sz = \<lparr>freelist = [], capacity = sz\<rparr>"

text \<open>\<^verbatim>\<open>FreeList.newNode\<close>: take the last recycled node, or allocate an empty one.\<close>

definition FreeList_newNode :: "'a FreeList \<Rightarrow> 'a node \<times> 'a FreeList" where
  "FreeList_newNode f =
     (if freelist f = [] then (Node [] [], f)
      else (last (freelist f), f\<lparr>freelist := butlast (freelist f)\<rparr>))"

definition FreeList_freeNode :: "'a FreeList \<Rightarrow> 'a node \<Rightarrow> bool \<times> 'a FreeList" where
  "FreeList_freeNode f n =
     (if length (freelist f) < capacity f then (True, f\<lparr>freelist := freelist f @ [n]\<rparr>)
      else (False, f))"

text \<open>\<^verbatim>\<open>BTree.newNode\<close> and \<^verbatim>\<open>BTree.freeNode\<close>, on the tree's free list. The back pointer
  \<^verbatim>\<open>n.t\<close> only gives a node access to this free list, which is passed explicitly.\<close>

definition newNode :: "'a FreeList \<Rightarrow> 'a node \<times> 'a FreeList" where
  "newNode f = FreeList_newNode f"

definition freeNode :: "'a FreeList \<Rightarrow> 'a node \<Rightarrow> 'a FreeList" where
  "freeNode f n =
     snd (FreeList_freeNode f (Node (items_truncate (items n) 0) (items_truncate (children n) 0)))"

text \<open>\<^verbatim>\<open>node.split\<close> returns the item at \<open>i\<close>, the shrunk node and the new node.\<close>

definition node_split :: "'a node \<Rightarrow> nat \<Rightarrow> 'a FreeList \<Rightarrow> ('a \<times> 'a node \<times> 'a node \<times> 'a FreeList) option" where
  "node_split n i f = do {
     item \<leftarrow> nth_opt (items n) i;
     let (next, f') = newNode f;
     let next_items = items next @ drop (i + 1) (items n);
     let n_items = items_truncate (items n) i;
     if length (children n) > 0 then
       (if i + 1 \<le> length (children n) then
          Some (item, Node n_items (items_truncate (children n) (i + 1)),
                Node next_items (children next @ drop (i + 1) (children n)), f')
        else None)
     else Some (item, Node n_items (children n), Node next_items (children next), f')
   }"

text \<open>\<^verbatim>\<open>node.maybeSplitChild\<close> returns whether a split occurred, and the node.\<close>

definition node_maybeSplitChild :: "'a node \<Rightarrow> nat \<Rightarrow> nat \<Rightarrow> 'a FreeList \<Rightarrow> (bool \<times> 'a node \<times> 'a FreeList) option" where
  "node_maybeSplitChild n i maxItems f = do {
     first \<leftarrow> nth_opt (children n) i;
     if length (items first) < maxItems then Some (False, n, f)
     else do {
       (item, first', second, f') \<leftarrow> node_split first (maxItems div 2) f;
       its \<leftarrow> items_insertAt (items n) i item;
       chs \<leftarrow> items_insertAt ((children n)[i := first']) (i + 1) second;
       Some (True, Node its chs, f')
     }
   }"

text \<open>\<^verbatim>\<open>node.insert\<close> returns the replaced item (or the zero value) with the flag, and the node.\<close>

partial_function (option) node_insert ::
  "('a \<Rightarrow> 'a \<Rightarrow> bool) \<Rightarrow> 'a \<Rightarrow> 'a node \<Rightarrow> 'a \<Rightarrow> nat \<Rightarrow> 'a FreeList
     \<Rightarrow> (('a \<times> bool) \<times> 'a node \<times> 'a FreeList) option" where
  "node_insert lt zero n item maxItems f =
     (case items_find lt (items n) item of (i, found) \<Rightarrow>
      if found then do {
        out \<leftarrow> nth_opt (items n) i;
        Some ((out, True), Node ((items n)[i := item]) (children n), f)
      }
      else if length (children n) = 0 then do {
        its \<leftarrow> items_insertAt (items n) i item;
        Some ((zero, False), Node its (children n), f)
      }
      else do {
        (didSplit, n1, f1) \<leftarrow> node_maybeSplitChild n i maxItems f;
        sel \<leftarrow> (if didSplit then do {
                  inTree \<leftarrow> nth_opt (items n1) i;
                  if lt item inTree then Some (Inr i)
                  else if lt inTree item then Some (Inr (i + 1))
                  else Some (Inl inTree)
                } else Some (Inr i));
        case sel of
          Inl out \<Rightarrow> Some ((out, True), Node ((items n1)[i := item]) (children n1), f1)
        | Inr j \<Rightarrow> do {
            c \<leftarrow> nth_opt (children n1) j;
            (r, c', f2) \<leftarrow> node_insert lt zero c item maxItems f1;
            Some (r, Node (items n1) ((children n1)[j := c']), f2)
          }
      })"

declare node_insert.simps [code]

subsection \<open>Removal\<close>

datatype toRemove = removeItem | removeMin | removeMax

text \<open>The first part of \<^verbatim>\<open>node.remove\<close>, up to the comment "If we get to here, we have
  children": either the call returns at a leaf (\<open>Inl\<close>), or it goes on with the child
  index \<open>i\<close> and the flag \<open>found\<close> (\<open>Inr\<close>).\<close>

definition remove_select ::
  "('a \<Rightarrow> 'a \<Rightarrow> bool) \<Rightarrow> 'a \<Rightarrow> 'a node \<Rightarrow> 'a \<Rightarrow> toRemove
     \<Rightarrow> ((('a \<times> bool) \<times> 'a node) + (nat \<times> bool)) option" where
  "remove_select lt zero n item typ =
     (case typ of
        removeMax \<Rightarrow>
          if length (children n) = 0 then do {
            (out, its) \<leftarrow> items_pop (items n);
            Some (Inl ((out, True), Node its (children n)))
          } else Some (Inr (length (items n), False))
      | removeMin \<Rightarrow>
          if length (children n) = 0 then do {
            (out, its) \<leftarrow> items_removeAt (items n) 0;
            Some (Inl ((out, True), Node its (children n)))
          } else Some (Inr (0, False))
      | removeItem \<Rightarrow>
          (case items_find lt (items n) item of (i, found) \<Rightarrow>
             if length (children n) = 0 then
               (if found then do {
                  (out, its) \<leftarrow> items_removeAt (items n) i;
                  Some (Inl ((out, True), Node its (children n)))
                } else Some (Inl ((zero, False), n)))
             else Some (Inr (i, found))))"

text \<open>The three branches of \<^verbatim>\<open>node.growChildAndRemove\<close>, before its final call of
  \<^verbatim>\<open>n.remove\<close>.\<close>

definition stealFromLeft :: "'a node \<Rightarrow> nat \<Rightarrow> 'a node option" where
  "stealFromLeft n i = do {
     child \<leftarrow> nth_opt (children n) i;
     stealFrom \<leftarrow> nth_opt (children n) (i - 1);
     (stolenItem, sf_items) \<leftarrow> items_pop (items stealFrom);
     sep \<leftarrow> nth_opt (items n) (i - 1);
     child_items \<leftarrow> items_insertAt (items child) 0 sep;
     (child_children, sf_children) \<leftarrow>
       (if length (children stealFrom) > 0 then do {
          (c, rest) \<leftarrow> items_pop (children stealFrom);
          cc \<leftarrow> items_insertAt (children child) 0 c;
          Some (cc, rest)
        } else Some (children child, children stealFrom));
     Some (Node ((items n)[i - 1 := stolenItem])
             ((children n)[i := Node child_items child_children,
                           i - 1 := Node sf_items sf_children]))
   }"

definition stealFromRight :: "'a node \<Rightarrow> nat \<Rightarrow> 'a node option" where
  "stealFromRight n i = do {
     child \<leftarrow> nth_opt (children n) i;
     stealFrom \<leftarrow> nth_opt (children n) (i + 1);
     (stolenItem, sf_items) \<leftarrow> items_removeAt (items stealFrom) 0;
     sep \<leftarrow> nth_opt (items n) i;
     (child_children, sf_children) \<leftarrow>
       (if length (children stealFrom) > 0 then do {
          (c, rest) \<leftarrow> items_removeAt (children stealFrom) 0;
          Some (children child @ [c], rest)
        } else Some (children child, children stealFrom));
     Some (Node ((items n)[i := stolenItem])
             ((children n)[i := Node (items child @ [sep]) child_children,
                           i + 1 := Node sf_items sf_children]))
   }"

definition mergeWithRight :: "'a node \<Rightarrow> nat \<Rightarrow> 'a FreeList \<Rightarrow> ('a node \<times> 'a FreeList) option" where
  "mergeWithRight n i f = do {
     child \<leftarrow> nth_opt (children n) i;
     (mergeItem, n_items) \<leftarrow> items_removeAt (items n) i;
     (mergeChild, n_children) \<leftarrow> items_removeAt (children n) (i + 1);
     Some (Node n_items
             (n_children[i := Node (items child @ [mergeItem] @ items mergeChild)
                                   (children child @ children mergeChild)]),
           freeNode f mergeChild)
   }"

text \<open>The node and free list that \<^verbatim>\<open>growChildAndRemove\<close> has made when it calls
  \<^verbatim>\<open>n.remove\<close> again. In the merge branch \<^verbatim>\<open>i--\<close> on \<open>i = 0\<close> gives \<open>-1\<close>, and the
  read of \<^verbatim>\<open>n.children[i]\<close> panics.\<close>

definition growChild :: "'a node \<Rightarrow> nat \<Rightarrow> nat \<Rightarrow> 'a FreeList \<Rightarrow> ('a node \<times> 'a FreeList) option" where
  "growChild n i minItems f = do {
     leftSpare \<leftarrow> (if i > 0 then do {
                     l \<leftarrow> nth_opt (children n) (i - 1);
                     Some (length (items l) > minItems)
                   } else Some False);
     if leftSpare then do { n' \<leftarrow> stealFromLeft n i; Some (n', f) }
     else do {
       rightSpare \<leftarrow> (if i < length (items n) then do {
                        r \<leftarrow> nth_opt (children n) (i + 1);
                        Some (length (items r) > minItems)
                      } else Some False);
       if rightSpare then do { n' \<leftarrow> stealFromRight n i; Some (n', f) }
       else if i \<ge> length (items n) then
         (if i = 0 then None else mergeWithRight n (i - 1) f)
       else mergeWithRight n i f
     }
   }"

text \<open>\<^verbatim>\<open>node.remove\<close>, with \<^verbatim>\<open>node.growChildAndRemove\<close> inlined as \<open>growChild\<close> followed
  by the call of \<^verbatim>\<open>n.remove\<close> on the grown node.\<close>

partial_function (option) node_remove ::
  "('a \<Rightarrow> 'a \<Rightarrow> bool) \<Rightarrow> 'a \<Rightarrow> 'a node \<Rightarrow> 'a \<Rightarrow> nat \<Rightarrow> toRemove \<Rightarrow> 'a FreeList
     \<Rightarrow> (('a \<times> bool) \<times> 'a node \<times> 'a FreeList) option" where
  "node_remove lt zero n item minItems typ f = do {
     sel \<leftarrow> remove_select lt zero n item typ;
     case sel of
       Inl (r, n') \<Rightarrow> Some (r, n', f)
     | Inr (i, found) \<Rightarrow> do {
         child \<leftarrow> nth_opt (children n) i;
         if length (items child) \<le> minItems then do {
           (n', f') \<leftarrow> growChild n i minItems f;
           node_remove lt zero n' item minItems typ f'
         }
         else if found then do {
           out \<leftarrow> nth_opt (items n) i;
           ((pred, _), child', f') \<leftarrow> node_remove lt zero child zero minItems removeMax f;
           Some ((out, True), Node ((items n)[i := pred]) ((children n)[i := child']), f')
         }
         else do {
           (r, child', f') \<leftarrow> node_remove lt zero child item minItems typ f;
           Some (r, Node (items n) ((children n)[i := child']), f')
         }
       }
   }"

declare node_remove.simps [code]

subsection \<open>Iteration\<close>

datatype direction = descend | ascend

text \<open>An \<^verbatim>\<open>optionalItem\<close> is an \<open>'a option\<close>: \<^verbatim>\<open>optional(x)\<close> is \<open>Some x\<close> and \<^verbatim>\<open>empty()\<close> is
  \<open>None\<close>. The callback \<^verbatim>\<open>ItemIterator\<close> may have effects of its own: it is a function from
  the item and the caller's state \<open>'s\<close> to its answer and the new state.\<close>

type_synonym ('a, 's) ItemIterator = "'a \<Rightarrow> 's \<Rightarrow> bool \<times> 's"

text \<open>The start and stop indices that \<^verbatim>\<open>node.iterate\<close> computes before each loop. The
  descending start index is \<open>-1\<close> on an empty node, hence an \<open>int\<close>.\<close>

definition ascend_index :: "('a \<Rightarrow> 'a \<Rightarrow> bool) \<Rightarrow> 'a node \<Rightarrow> 'a option \<Rightarrow> nat" where
  "ascend_index lt n start = (case start of Some st \<Rightarrow> fst (items_find lt (items n) st) | None \<Rightarrow> 0)"

definition ascend_stopIndex :: "('a \<Rightarrow> 'a \<Rightarrow> bool) \<Rightarrow> 'a node \<Rightarrow> 'a option \<Rightarrow> nat" where
  "ascend_stopIndex lt n stop =
     (case stop of Some sp \<Rightarrow> fst (items_find lt (items n) sp) | None \<Rightarrow> length (items n))"

definition descend_index :: "('a \<Rightarrow> 'a \<Rightarrow> bool) \<Rightarrow> 'a node \<Rightarrow> 'a option \<Rightarrow> int" where
  "descend_index lt n start =
     (case start of
        Some st \<Rightarrow> (case items_find lt (items n) st of (index, found) \<Rightarrow>
                     if \<not> found then int index - 1 else int index)
      | None \<Rightarrow> int (length (items n)) - 1)"

definition descend_stopIndex :: "('a \<Rightarrow> 'a \<Rightarrow> bool) \<Rightarrow> 'a node \<Rightarrow> 'a option \<Rightarrow> nat" where
  "descend_stopIndex lt n stop =
     (case stop of
        Some sp \<Rightarrow> (case items_find lt (items n) sp of (stopIndex, found) \<Rightarrow>
                     if found then stopIndex + 1 else stopIndex)
      | None \<Rightarrow> 0)"

lemma size_nth_opt: "nth_opt cs i = Some c \<Longrightarrow> size c < Suc (size_list size cs)"
  using size_list_estimation' [of "cs ! i" cs "size (cs ! i)" size]
  by (auto simp: nth_opt_def split: if_splits)

text \<open>\<^verbatim>\<open>node.iterate\<close> returns \<^verbatim>\<open>(hit, ok)\<close>, here with the callback's state. \<open>ascend_loop\<close>
  and \<open>descend_loop\<close> are its two \<^verbatim>\<open>for\<close> loops from index \<open>i\<close> on, each followed by the
  visit of the child at \<open>stopIndex\<close>.\<close>

function
  node_iterate ::
    "('a \<Rightarrow> 'a \<Rightarrow> bool) \<Rightarrow> 'a node \<Rightarrow> direction \<Rightarrow> 'a option \<Rightarrow> 'a option \<Rightarrow> bool \<Rightarrow> bool
       \<Rightarrow> ('a, 's) ItemIterator \<Rightarrow> 's \<Rightarrow> ((bool \<times> bool) \<times> 's) option"
and ascend_loop ::
    "('a \<Rightarrow> 'a \<Rightarrow> bool) \<Rightarrow> 'a node \<Rightarrow> nat \<Rightarrow> nat \<Rightarrow> 'a option \<Rightarrow> 'a option \<Rightarrow> bool \<Rightarrow> bool
       \<Rightarrow> ('a, 's) ItemIterator \<Rightarrow> 's \<Rightarrow> ((bool \<times> bool) \<times> 's) option"
and descend_loop ::
    "('a \<Rightarrow> 'a \<Rightarrow> bool) \<Rightarrow> 'a node \<Rightarrow> int \<Rightarrow> nat \<Rightarrow> 'a option \<Rightarrow> 'a option \<Rightarrow> bool \<Rightarrow> bool
       \<Rightarrow> ('a, 's) ItemIterator \<Rightarrow> 's \<Rightarrow> ((bool \<times> bool) \<times> 's) option"
where
  "node_iterate lt n dir start stop includeStart hit iter s =
     (case dir of
        ascend \<Rightarrow>
          ascend_loop lt n (ascend_index lt n start) (ascend_stopIndex lt n stop)
            start stop includeStart hit iter s
      | descend \<Rightarrow>
          descend_loop lt n (descend_index lt n start) (descend_stopIndex lt n stop)
            start stop includeStart hit iter s)"
| "ascend_loop lt n i stopIndex start stop includeStart hit iter s =
     (if i < stopIndex then do {
        ((hit1, ok), s1) \<leftarrow>
          (if length (children n) > 0 then do {
             c \<leftarrow> nth_opt (children n) i;
             node_iterate lt c ascend start stop includeStart hit iter s
           } else Some ((hit, True), s));
        if \<not> ok then Some ((hit1, False), s1)
        else do {
          x \<leftarrow> nth_opt (items n) i;
          if \<not> includeStart \<and> \<not> hit1 \<and> (case start of Some st \<Rightarrow> \<not> lt st x | None \<Rightarrow> False)
          then ascend_loop lt n (i + 1) stopIndex start stop includeStart True iter s1
          else (case iter x s1 of (continue, s2) \<Rightarrow>
                  if \<not> continue then Some ((True, False), s2)
                  else ascend_loop lt n (i + 1) stopIndex start stop includeStart True iter s2)
        }
      }
      else if length (children n) > 0 then do {
        c \<leftarrow> nth_opt (children n) stopIndex;
        node_iterate lt c ascend start stop includeStart hit iter s
      }
      else Some ((hit, True), s))"
| "descend_loop lt n i stopIndex start stop includeStart hit iter s =
     (if i \<ge> int stopIndex then do {
        skip \<leftarrow> (case start of
                  Some st \<Rightarrow> do {
                    x \<leftarrow> nth_opt (items n) (nat i);
                    Some (\<not> lt x st \<and> (\<not> includeStart \<or> hit \<or> lt st x))
                  }
                | None \<Rightarrow> Some False);
        if skip
        then descend_loop lt n (i - 1) stopIndex start stop includeStart hit iter s
        else do {
          ((hit1, ok), s1) \<leftarrow>
            (if length (children n) > 0 then do {
               c \<leftarrow> nth_opt (children n) (nat i + 1);
               node_iterate lt c descend start stop includeStart hit iter s
             } else Some ((hit, True), s));
          if \<not> ok then Some ((hit1, False), s1)
          else do {
            x \<leftarrow> nth_opt (items n) (nat i);
            case iter x s1 of (continue, s2) \<Rightarrow>
              if \<not> continue then Some ((True, False), s2)
              else descend_loop lt n (i - 1) stopIndex start stop includeStart True iter s2
          }
        }
      }
      else if length (children n) > 0 then do {
        c \<leftarrow> nth_opt (children n) stopIndex;
        node_iterate lt c descend start stop includeStart hit iter s
      }
      else Some ((hit, True), s))"
  by pat_completeness auto

termination
  apply (relation "measures
     [\<lambda>x. case x of
        Inl (lt, n, dir, start, stop, includeStart, hit, iter, s) \<Rightarrow> size n
      | Inr (Inl (lt, n, i, stopIndex, start, stop, includeStart, hit, iter, s)) \<Rightarrow> size n
      | Inr (Inr (lt, n, i, stopIndex, start, stop, includeStart, hit, iter, s)) \<Rightarrow> size n,
      \<lambda>x. case x of Inl _ \<Rightarrow> 1 | Inr _ \<Rightarrow> 0,
      \<lambda>x. case x of
        Inl _ \<Rightarrow> 0
      | Inr (Inl (lt, n, i, stopIndex, start, stop, includeStart, hit, iter, s)) \<Rightarrow> stopIndex - i
      | Inr (Inr (lt, n, i, stopIndex, start, stop, includeStart, hit, iter, s)) \<Rightarrow>
          nat (i + 1 - int stopIndex)]")
  apply (auto dest: size_nth_opt)
  apply (case_tac n; auto dest: size_nth_opt)+
  done

subsection \<open>Lookups\<close>

text \<open>\<^verbatim>\<open>node.get\<close>.\<close>

function node_get :: "('a \<Rightarrow> 'a \<Rightarrow> bool) \<Rightarrow> 'a \<Rightarrow> 'a node \<Rightarrow> 'a \<Rightarrow> ('a \<times> bool) option" where
  "node_get lt zero n key =
     (case items_find lt (items n) key of (i, found) \<Rightarrow>
        if found then do { x \<leftarrow> nth_opt (items n) i; Some (x, True) }
        else if length (children n) > 0 then do {
          c \<leftarrow> nth_opt (children n) i;
          node_get lt zero c key
        }
        else Some (zero, False))"
  by pat_completeness auto
termination
  by (relation "measure (\<lambda>(lt, zero, n, key). size n)")
     (auto dest: size_nth_opt, case_tac n, auto dest: size_nth_opt)

text \<open>The loops of \<^verbatim>\<open>min\<close> and \<^verbatim>\<open>max\<close>, which walk down to the first and the last leaf,
  and the two functions on a node that may be \<^verbatim>\<open>nil\<close>.\<close>

function first_leaf :: "'a node \<Rightarrow> 'a node option" where
  "first_leaf n =
     (if length (children n) > 0 then do { c \<leftarrow> nth_opt (children n) 0; first_leaf c }
      else Some n)"
  by pat_completeness auto
termination
  by (relation "measure size") (auto dest: size_nth_opt, case_tac n, auto dest: size_nth_opt)

function last_leaf :: "'a node \<Rightarrow> 'a node option" where
  "last_leaf n =
     (if length (children n) > 0 then do {
        c \<leftarrow> nth_opt (children n) (length (children n) - 1);
        last_leaf c
      }
      else Some n)"
  by pat_completeness auto
termination
  by (relation "measure size") (auto dest: size_nth_opt, case_tac n, auto dest: size_nth_opt)

definition node_min :: "'a \<Rightarrow> 'a node option \<Rightarrow> ('a \<times> bool) option" where
  "node_min zero n =
     (case n of
        None \<Rightarrow> Some (zero, False)
      | Some n \<Rightarrow> do {
          l \<leftarrow> first_leaf n;
          if length (items l) = 0 then Some (zero, False)
          else do { x \<leftarrow> nth_opt (items l) 0; Some (x, True) }
        })"

definition node_max :: "'a \<Rightarrow> 'a node option \<Rightarrow> ('a \<times> bool) option" where
  "node_max zero n =
     (case n of
        None \<Rightarrow> Some (zero, False)
      | Some n \<Rightarrow> do {
          l \<leftarrow> last_leaf n;
          if length (items l) = 0 then Some (zero, False)
          else do { x \<leftarrow> nth_opt (items l) (length (items l) - 1); Some (x, True) }
        })"

declare node_get.simps [simp del] first_leaf.simps [simp del] last_leaf.simps [simp del]

declare node_iterate.simps [simp del] ascend_loop.simps [simp del] descend_loop.simps [simp del]

subsection \<open>The tree\<close>

text \<open>Go's \<^verbatim>\<open>int\<close> is taken to be the 64-bit two's-complement integer of a 64-bit platform.
  Its arithmetic wraps around silently: \<open>wrap_int\<close> maps the mathematical result of an
  operation to the \<^verbatim>\<open>int\<close> that Go computes. Its division truncates towards zero. An \<^verbatim>\<open>int\<close>
  used as an index is out of range of every slice when it is negative.\<close>

definition int_max :: int where
  "int_max = 2 ^ 63 - 1"

definition wrap_int :: "int \<Rightarrow> int" where
  "wrap_int x = (x + 2 ^ 63) mod 2 ^ 64 - 2 ^ 63"

definition go_quot :: "int \<Rightarrow> int \<Rightarrow> int" where
  "go_quot a b = sgn a * sgn b * (\<bar>a\<bar> div \<bar>b\<bar>)"

definition at_index :: "int \<Rightarrow> nat option" where
  "at_index i = (if i < 0 then None else Some (nat i))"

text \<open>\<^verbatim>\<open>BTree\<close>. The fields \<^verbatim>\<open>length\<close> and \<^verbatim>\<open>freelist\<close> are \<open>t_length\<close> and \<open>t_freelist\<close>.
  The constructor refuses a degree below 2, so the degree is stored as a \<open>nat\<close>. Its
  parameter is an \<^verbatim>\<open>int\<close>: a number above \<open>int_max\<close> is no argument that a caller can pass,
  and the model gives it no tree. The free list is held by value: that several trees may
  share one \<^verbatim>\<open>FreeList\<close> is not modelled.\<close>

record 'a BTree =
  degree :: nat
  t_length :: int
  root :: "'a node option"
  t_freelist :: "'a FreeList"

definition NewWithFreeList :: "int \<Rightarrow> 'a FreeList \<Rightarrow> 'a BTree option" where
  "NewWithFreeList deg f =
     (if deg \<le> 1 \<or> int_max < deg then None
      else Some \<lparr>degree = nat deg, t_length = 0, root = None, t_freelist = f\<rparr>)"

definition New :: "int \<Rightarrow> 'a BTree option" where
  "New deg = NewWithFreeList deg (NewFreeList DefaultFreeListSize)"

text \<open>\<^verbatim>\<open>BTree.maxItems\<close> is \<^verbatim>\<open>t.degree*2 - 1\<close> in \<^verbatim>\<open>int\<close> arithmetic: for a degree above \<open>2 ^ 62\<close>
  the product wraps around and the result is negative. \<^verbatim>\<open>BTree.minItems\<close> is
  \<^verbatim>\<open>t.degree - 1\<close>, which does not wrap for a degree of at least 2.\<close>

definition maxItems :: "'a BTree \<Rightarrow> int" where
  "maxItems t = wrap_int (wrap_int (int (degree t) * 2) - 1)"

definition minItems :: "'a BTree \<Rightarrow> nat" where
  "minItems t = degree t - 1"

text \<open>\<^verbatim>\<open>BTree.ReplaceOrInsert\<close> returns \<^verbatim>\<open>(prev, hadPrev)\<close> and the tree. With a negative
  \<^verbatim>\<open>maxItems()\<close> the test \<^verbatim>\<open>len(t.root.items) >= t.maxItems()\<close> holds and the root is split at
  the negative index \<^verbatim>\<open>t.maxItems() / 2\<close>, which panics. So the call of \<^verbatim>\<open>t.root.insert\<close> is
  reached with a \<^verbatim>\<open>maxItems()\<close> that is not negative only, and \<open>node_insert\<close> takes it as
  the \<open>nat\<close> of the same value.\<close>

definition ReplaceOrInsert ::
  "('a \<Rightarrow> 'a \<Rightarrow> bool) \<Rightarrow> 'a \<Rightarrow> 'a BTree \<Rightarrow> 'a \<Rightarrow> (('a \<times> bool) \<times> 'a BTree) option" where
  "ReplaceOrInsert lt zero t item =
     (case root t of
        None \<Rightarrow>
          (case newNode (t_freelist t) of (r, f) \<Rightarrow>
             Some ((zero, False),
                   t\<lparr>root := Some (Node (items r @ [item]) (children r)),
                     t_freelist := f, t_length := t_length t + 1\<rparr>))
      | Some r \<Rightarrow> do {
          (r1, f1) \<leftarrow>
            (if int (length (items r)) \<ge> maxItems t then do {
               i \<leftarrow> at_index (go_quot (maxItems t) 2);
               (item2, oldroot, second, f') \<leftarrow> node_split r i (t_freelist t);
               case newNode f' of (nr, f'') \<Rightarrow>
                 Some (Node (items nr @ [item2]) (children nr @ [oldroot, second]), f'')
             } else Some (r, t_freelist t));
          ((out, outb), r2, f2) \<leftarrow> node_insert lt zero r1 item (nat (maxItems t)) f1;
          Some ((out, outb),
                t\<lparr>root := Some r2, t_freelist := f2,
                  t_length := (if \<not> outb then t_length t + 1 else t_length t)\<rparr>)
        })"

text \<open>\<^verbatim>\<open>BTree.deleteItem\<close> and its three callers.\<close>

definition deleteItem ::
  "('a \<Rightarrow> 'a \<Rightarrow> bool) \<Rightarrow> 'a \<Rightarrow> 'a BTree \<Rightarrow> 'a \<Rightarrow> toRemove \<Rightarrow> (('a \<times> bool) \<times> 'a BTree) option" where
  "deleteItem lt zero t item typ =
     (case root t of
        None \<Rightarrow> Some ((zero, False), t)
      | Some r \<Rightarrow>
          if length (items r) = 0 then Some ((zero, False), t)
          else do {
            ((out, outb), r1, f1) \<leftarrow> node_remove lt zero r item (minItems t) typ (t_freelist t);
            (r2, f2) \<leftarrow>
              (if length (items r1) = 0 \<and> length (children r1) > 0 then do {
                 c \<leftarrow> nth_opt (children r1) 0;
                 Some (c, freeNode f1 r1)
               } else Some (r1, f1));
            Some ((out, outb),
                  t\<lparr>root := Some r2, t_freelist := f2,
                    t_length := (if outb then t_length t - 1 else t_length t)\<rparr>)
          })"

definition Delete ::
  "('a \<Rightarrow> 'a \<Rightarrow> bool) \<Rightarrow> 'a \<Rightarrow> 'a BTree \<Rightarrow> 'a \<Rightarrow> (('a \<times> bool) \<times> 'a BTree) option" where
  "Delete lt zero t item = deleteItem lt zero t item removeItem"

definition DeleteMin ::
  "('a \<Rightarrow> 'a \<Rightarrow> bool) \<Rightarrow> 'a \<Rightarrow> 'a BTree \<Rightarrow> (('a \<times> bool) \<times> 'a BTree) option" where
  "DeleteMin lt zero t = deleteItem lt zero t zero removeMin"

definition DeleteMax ::
  "('a \<Rightarrow> 'a \<Rightarrow> bool) \<Rightarrow> 'a \<Rightarrow> 'a BTree \<Rightarrow> (('a \<times> bool) \<times> 'a BTree) option" where
  "DeleteMax lt zero t = deleteItem lt zero t zero removeMax"

text \<open>The scans return the callback's final state.\<close>

definition tree_iterate ::
  "('a \<Rightarrow> 'a \<Rightarrow> bool) \<Rightarrow> 'a BTree \<Rightarrow> direction \<Rightarrow> 'a option \<Rightarrow> 'a option \<Rightarrow> bool
     \<Rightarrow> ('a, 's) ItemIterator \<Rightarrow> 's \<Rightarrow> 's option" where
  "tree_iterate lt t dir start stop includeStart iter s =
     (case root t of
        None \<Rightarrow> Some s
      | Some r \<Rightarrow> map_option snd (node_iterate lt r dir start stop includeStart False iter s))"

definition AscendRange ::
  "('a \<Rightarrow> 'a \<Rightarrow> bool) \<Rightarrow> 'a BTree \<Rightarrow> 'a \<Rightarrow> 'a \<Rightarrow> ('a, 's) ItemIterator \<Rightarrow> 's \<Rightarrow> 's option" where
  "AscendRange lt t greaterOrEqual lessThan_item iter s =
     tree_iterate lt t ascend (Some greaterOrEqual) (Some lessThan_item) True iter s"

definition Ascend ::
  "('a \<Rightarrow> 'a \<Rightarrow> bool) \<Rightarrow> 'a BTree \<Rightarrow> ('a, 's) ItemIterator \<Rightarrow> 's \<Rightarrow> 's option" where
  "Ascend lt t iter s = tree_iterate lt t ascend None None False iter s"

definition DescendRange ::
  "('a \<Rightarrow> 'a \<Rightarrow> bool) \<Rightarrow> 'a BTree \<Rightarrow> 'a \<Rightarrow> 'a \<Rightarrow> ('a, 's) ItemIterator \<Rightarrow> 's \<Rightarrow> 's option" where
  "DescendRange lt t lessOrEqual greaterThan_item iter s =
     tree_iterate lt t descend (Some lessOrEqual) (Some greaterThan_item) True iter s"

definition Descend ::
  "('a \<Rightarrow> 'a \<Rightarrow> bool) \<Rightarrow> 'a BTree \<Rightarrow> ('a, 's) ItemIterator \<Rightarrow> 's \<Rightarrow> 's option" where
  "Descend lt t iter s = tree_iterate lt t descend None None False iter s"

text \<open>\<^verbatim>\<open>BTree.Get\<close>, \<^verbatim>\<open>BTree.Has\<close>, \<^verbatim>\<open>BTree.Min\<close> and \<^verbatim>\<open>BTree.Max\<close>.\<close>

definition Get :: "('a \<Rightarrow> 'a \<Rightarrow> bool) \<Rightarrow> 'a \<Rightarrow> 'a BTree \<Rightarrow> 'a \<Rightarrow> ('a \<times> bool) option" where
  "Get lt zero t key =
     (case root t of None \<Rightarrow> Some (zero, False) | Some r \<Rightarrow> node_get lt zero r key)"

definition Has :: "('a \<Rightarrow> 'a \<Rightarrow> bool) \<Rightarrow> 'a \<Rightarrow> 'a BTree \<Rightarrow> 'a \<Rightarrow> bool option" where
  "Has lt zero t key = map_option snd (Get lt zero t key)"

definition BTree_Min :: "'a \<Rightarrow> 'a BTree \<Rightarrow> ('a \<times> bool) option" where
  "BTree_Min zero t = node_min zero (root t)"

definition BTree_Max :: "'a \<Rightarrow> 'a BTree \<Rightarrow> ('a \<times> bool) option" where
  "BTree_Max zero t = node_max zero (root t)"

text \<open>\<^verbatim>\<open>BTree.Len\<close> and \<^verbatim>\<open>BTree.Clear\<close>.\<close>

definition Len :: "'a BTree \<Rightarrow> int" where
  "Len t = t_length t"

definition Clear :: "'a BTree \<Rightarrow> bool \<Rightarrow> 'a BTree" where
  "Clear t addNodesToFreelist = t\<lparr>root := None, t_length := 0\<rparr>"

text \<open>The callback that records every item it is given and never stops the scan.\<close>

definition collect :: "('a, 'a list) ItemIterator" where
  "collect x acc = (True, acc @ [x])"

subsection \<open>Sequences of mutations\<close>

text \<open>The four mutations, a run of them on a tree (with the pair each call returns), and a
  run on a fresh tree made by \<^verbatim>\<open>New(degree)\<close>.\<close>

datatype 'a operation = OpReplaceOrInsert 'a | OpDelete 'a | OpDeleteMin | OpDeleteMax

definition apply_operation ::
  "('a \<Rightarrow> 'a \<Rightarrow> bool) \<Rightarrow> 'a \<Rightarrow> 'a BTree \<Rightarrow> 'a operation \<Rightarrow> (('a \<times> bool) \<times> 'a BTree) option" where
  "apply_operation lt zero t op =
     (case op of
        OpReplaceOrInsert x \<Rightarrow> ReplaceOrInsert lt zero t x
      | OpDelete x \<Rightarrow> Delete lt zero t x
      | OpDeleteMin \<Rightarrow> DeleteMin lt zero t
      | OpDeleteMax \<Rightarrow> DeleteMax lt zero t)"

fun run ::
  "('a \<Rightarrow> 'a \<Rightarrow> bool) \<Rightarrow> 'a \<Rightarrow> 'a BTree \<Rightarrow> 'a operation list
     \<Rightarrow> (('a \<times> bool) list \<times> 'a BTree) option" where
  "run lt zero t [] = Some ([], t)"
| "run lt zero t (op # ops) = do {
     (r, t1) \<leftarrow> apply_operation lt zero t op;
     (rs, t2) \<leftarrow> run lt zero t1 ops;
     Some (r # rs, t2)
   }"

definition fresh_run ::
  "('a \<Rightarrow> 'a \<Rightarrow> bool) \<Rightarrow> 'a \<Rightarrow> int \<Rightarrow> 'a operation list
     \<Rightarrow> (('a \<times> bool) list \<times> 'a BTree) option" where
  "fresh_run lt zero deg ops = do { t \<leftarrow> New deg; run lt zero t ops }"

section \<open>Vocabulary of the properties\<close>

text \<open>The element contract: \<open>lt\<close> is a strict weak order. Two elements are equal under
  the order when neither is less than the other.\<close>

definition strict_weak_order :: "('a \<Rightarrow> 'a \<Rightarrow> bool) \<Rightarrow> bool" where
  "strict_weak_order lt =
     ((\<forall>a. \<not> lt a a) \<and> (\<forall>a b c. lt a b \<longrightarrow> lt b c \<longrightarrow> lt a c)
      \<and> (\<forall>a b c. \<not> lt a b \<longrightarrow> \<not> lt b c \<longrightarrow> \<not> lt a c))"

definition equiv_items :: "('a \<Rightarrow> 'a \<Rightarrow> bool) \<Rightarrow> 'a \<Rightarrow> 'a \<Rightarrow> bool" where
  "equiv_items lt a b = (\<not> lt a b \<and> \<not> lt b a)"

text \<open>The in-order sequence of a subtree: child 0, item 0, child 1, item 1, ..., last child.\<close>

fun weave :: "'a list \<Rightarrow> 'a list list \<Rightarrow> 'a list" where
  "weave xs [] = xs"
| "weave [] (l # ls) = l @ concat ls"
| "weave (x # xs) (l # ls) = l @ x # weave xs ls"

fun inorder :: "'a node \<Rightarrow> 'a list" where
  "inorder (Node its cs) = weave its (map inorder cs)"

text \<open>A subtree of height \<open>h\<close> in which every leaf is at depth \<open>h\<close>, every inner node has
  one child more than items, and every node holds between \<open>lo\<close> and \<open>hi\<close> items.\<close>

fun wf_node :: "nat \<Rightarrow> nat \<Rightarrow> nat \<Rightarrow> 'a node \<Rightarrow> bool" where
  "wf_node lo hi 0 (Node its cs) = (cs = [] \<and> lo \<le> length its \<and> length its \<le> hi)"
| "wf_node lo hi (Suc h) (Node its cs) =
     (length cs = length its + 1 \<and> lo \<le> length its \<and> length its \<le> hi
      \<and> (\<forall>c \<in> set cs. wf_node lo hi h c))"

text \<open>The same for a node whose own number of items is not constrained (the root, or a
  node in the middle of an operation).\<close>

definition shaped :: "nat \<Rightarrow> nat \<Rightarrow> nat \<Rightarrow> 'a node \<Rightarrow> bool" where
  "shaped lo hi h n =
     (case h of
        0 \<Rightarrow> children n = []
      | Suc h' \<Rightarrow> length (children n) = length (items n) + 1
                  \<and> (\<forall>c \<in> set (children n). wf_node lo hi h' c))"

text \<open>Every node in a free list has been emptied.\<close>

definition fl_ok :: "'a FreeList \<Rightarrow> bool" where
  "fl_ok f = (\<forall>n \<in> set (freelist f). n = Node [] [])"

text \<open>Insertion into, and deletion from, an ascending list; an element equal to the new one
  under the order is replaced by it.\<close>

fun ins_list :: "('a \<Rightarrow> 'a \<Rightarrow> bool) \<Rightarrow> 'a \<Rightarrow> 'a list \<Rightarrow> 'a list" where
  "ins_list lt x [] = [x]"
| "ins_list lt x (a # xs) =
     (if lt x a then x # a # xs else if lt a x then a # ins_list lt x xs else x # xs)"

fun del_list :: "('a \<Rightarrow> 'a \<Rightarrow> bool) \<Rightarrow> 'a \<Rightarrow> 'a list \<Rightarrow> 'a list" where
  "del_list lt x [] = []"
| "del_list lt x (a # xs) =
     (if lt x a then a # xs else if lt a x then a # del_list lt x xs else xs)"

text \<open>The parts of a node's in-order sequence to the left and to the right of child \<open>i\<close>.\<close>

definition lefts :: "'a list \<Rightarrow> 'a list list \<Rightarrow> 'a list" where
  "lefts xs ls = concat (map2 (\<lambda>l x. l @ [x]) ls xs)"

definition rights :: "'a list \<Rightarrow> 'a list list \<Rightarrow> 'a list" where
  "rights xs ls = concat (map2 (\<lambda>x l. x # l) xs ls)"

definition left_of :: "'a node \<Rightarrow> nat \<Rightarrow> 'a list" where
  "left_of n i = lefts (take i (items n)) (map inorder (take i (children n)))"

definition right_of :: "'a node \<Rightarrow> nat \<Rightarrow> 'a list" where
  "right_of n i = rights (drop i (items n)) (map inorder (drop (Suc i) (children n)))"

text \<open>What \<^verbatim>\<open>node.insert\<close> has to achieve on a node \<open>n\<close> of height \<open>h\<close>.\<close>

definition insert_post ::
  "('a \<Rightarrow> 'a \<Rightarrow> bool) \<Rightarrow> 'a \<Rightarrow> 'a \<Rightarrow> nat \<Rightarrow> nat \<Rightarrow> nat \<Rightarrow> 'a node
     \<Rightarrow> (('a \<times> bool) \<times> 'a node \<times> 'a FreeList) option \<Rightarrow> bool" where
  "insert_post lt zero item lo hi h n res =
     (case res of
        None \<Rightarrow> False
      | Some ((out, b), n', f') \<Rightarrow>
          shaped lo hi h n' \<and> length (items n) \<le> length (items n')
          \<and> length (items n') \<le> Suc (length (items n)) \<and> fl_ok f'
          \<and> inorder n' = ins_list lt item (inorder n)
          \<and> (b \<longleftrightarrow> (\<exists>y \<in> set (inorder n). equiv_items lt y item))
          \<and> (b \<longrightarrow> out \<in> set (inorder n) \<and> equiv_items lt out item)
          \<and> (\<not> b \<longrightarrow> out = zero))"

text \<open>What \<^verbatim>\<open>node.remove\<close> has to achieve: the sequence it leaves, the pair it returns, and
  the child index it selects at an inner node.\<close>

definition removed :: "('a \<Rightarrow> 'a \<Rightarrow> bool) \<Rightarrow> toRemove \<Rightarrow> 'a \<Rightarrow> 'a list \<Rightarrow> 'a list" where
  "removed lt typ item xs =
     (case typ of removeItem \<Rightarrow> del_list lt item xs | removeMin \<Rightarrow> tl xs | removeMax \<Rightarrow> butlast xs)"

definition remove_result :: "('a \<Rightarrow> 'a \<Rightarrow> bool) \<Rightarrow> 'a \<Rightarrow> toRemove \<Rightarrow> 'a \<Rightarrow> 'a list \<Rightarrow> 'a \<times> bool" where
  "remove_result lt zero typ item xs =
     (case typ of
        removeItem \<Rightarrow> (case List.find (\<lambda>y. equiv_items lt y item) xs of
                         None \<Rightarrow> (zero, False) | Some y \<Rightarrow> (y, True))
      | removeMin \<Rightarrow> (hd xs, True)
      | removeMax \<Rightarrow> (last xs, True))"

definition remove_post ::
  "('a \<Rightarrow> 'a \<Rightarrow> bool) \<Rightarrow> 'a \<Rightarrow> 'a \<Rightarrow> toRemove \<Rightarrow> nat \<Rightarrow> nat \<Rightarrow> nat \<Rightarrow> 'a node
     \<Rightarrow> (('a \<times> bool) \<times> 'a node \<times> 'a FreeList) option \<Rightarrow> bool" where
  "remove_post lt zero item typ lo hi h n res =
     (case res of
        None \<Rightarrow> False
      | Some (r, n', f') \<Rightarrow>
          shaped lo hi h n' \<and> length (items n') \<le> length (items n)
          \<and> length (items n) \<le> Suc (length (items n')) \<and> fl_ok f'
          \<and> inorder n' = removed lt typ item (inorder n)
          \<and> r = remove_result lt zero typ item (inorder n))"

definition remove_index :: "('a \<Rightarrow> 'a \<Rightarrow> bool) \<Rightarrow> 'a list \<Rightarrow> 'a \<Rightarrow> toRemove \<Rightarrow> nat \<times> bool" where
  "remove_index lt its item typ =
     (case typ of
        removeMax \<Rightarrow> (length its, False)
      | removeMin \<Rightarrow> (0, False)
      | removeItem \<Rightarrow> items_find lt its item)"

text \<open>The elements that a tree stores: the in-order sequence of its root.\<close>

definition contents :: "'a BTree \<Rightarrow> 'a list" where
  "contents t = (case root t of None \<Rightarrow> [] | Some r \<Rightarrow> inorder r)"

text \<open>The upper bound \<open>2 * degree - 1\<close> of the specification, as a number. It is what
  \<^verbatim>\<open>BTree.maxItems\<close> computes as long as the arithmetic does not wrap around.\<close>

definition max_items :: "'a BTree \<Rightarrow> nat" where
  "max_items t = degree t * 2 - 1"

text \<open>The invariant of a tree: the degree is an \<^verbatim>\<open>int\<close> of at least 2, the free list holds
  emptied nodes only, the root is a well-shaped subtree whose children respect the bounds
  of the degree, only a leaf root may be empty, the in-order sequence is strictly ascending
  and \<^verbatim>\<open>length\<close> is its length.\<close>

definition tree_inv :: "('a \<Rightarrow> 'a \<Rightarrow> bool) \<Rightarrow> 'a BTree \<Rightarrow> bool" where
  "tree_inv lt t =
     (2 \<le> degree t \<and> int (degree t) \<le> int_max
      \<and> fl_ok (t_freelist t) \<and> t_length t = int (length (contents t))
      \<and> (case root t of
            None \<Rightarrow> True
          | Some r \<Rightarrow> (\<exists>h. shaped (minItems t) (max_items t) h r)
                      \<and> length (items r) \<le> max_items t
                      \<and> (items r = [] \<longrightarrow> children r = [])
                      \<and> sorted_wrt lt (inorder r)))"

text \<open>What the four mutations do to the ascending sequence of the stored elements, and the
  sequence that a run of them leaves when it starts from the empty one.\<close>

fun list_apply :: "('a \<Rightarrow> 'a \<Rightarrow> bool) \<Rightarrow> 'a operation \<Rightarrow> 'a list \<Rightarrow> 'a list" where
  "list_apply lt (OpReplaceOrInsert x) xs = ins_list lt x xs"
| "list_apply lt (OpDelete x) xs = del_list lt x xs"
| "list_apply lt OpDeleteMin xs = tl xs"
| "list_apply lt OpDeleteMax xs = butlast xs"

definition list_run :: "('a \<Rightarrow> 'a \<Rightarrow> bool) \<Rightarrow> 'a operation list \<Rightarrow> 'a list \<Rightarrow> 'a list" where
  "list_run lt ops xs = foldl (\<lambda>ys op. list_apply lt op ys) xs ops"

text \<open>What a delete returns on a tree whose in-order sequence is \<open>xs\<close>.\<close>

definition delete_result :: "('a \<Rightarrow> 'a \<Rightarrow> bool) \<Rightarrow> 'a \<Rightarrow> toRemove \<Rightarrow> 'a \<Rightarrow> 'a list \<Rightarrow> 'a \<times> bool" where
  "delete_result lt zero typ item xs =
     (if xs = [] then (zero, False) else remove_result lt zero typ item xs)"

text \<open>A scan of the sequence \<open>xs\<close>: the callback is called on each element in turn until it
  answers \<^verbatim>\<open>false\<close>. The result is whether it never did, and the callback's final state.\<close>

fun visit :: "('a, 's) ItemIterator \<Rightarrow> 'a list \<Rightarrow> 's \<Rightarrow> bool \<times> 's" where
  "visit iter [] s = (True, s)"
| "visit iter (x # xs) s =
     (case iter x s of (continue, s') \<Rightarrow> if continue then visit iter xs s' else (False, s'))"

text \<open>What is left of a node's in-order sequence from child \<open>i\<close> on.\<close>

definition tail_from :: "'a node \<Rightarrow> nat \<Rightarrow> 'a list" where
  "tail_from n i = (if children n = [] then drop i (items n)
                    else inorder (children n ! i) @ right_of n i)"

text \<open>A node's in-order sequence up to and including child \<open>j\<close>.\<close>

definition head_to :: "'a node \<Rightarrow> nat \<Rightarrow> 'a list" where
  "head_to n j = (if children n = [] then take j (items n)
                  else left_of n j @ inorder (children n ! j))"

text \<open>The structural conditions on a node, as the specification words them: a node has no
  children or one more than items, and a node below the root holds between
  \<open>degree - 1\<close> and \<open>2 * degree - 1\<close> items.\<close>

fun node_shape :: "'a node \<Rightarrow> bool" where
  "node_shape (Node its cs) =
     ((length cs = 0 \<or> length cs = length its + 1) \<and> (\<forall>c \<in> set cs. node_shape c))"

fun node_bounds :: "nat \<Rightarrow> 'a node \<Rightarrow> bool" where
  "node_bounds d (Node its cs) =
     (d - 1 \<le> length its \<and> length its \<le> 2 * d - 1 \<and> (\<forall>c \<in> set cs. node_bounds d c))"

text \<open>The number of calls of \<^verbatim>\<open>ReplaceOrInsert\<close> in a run that returned \<^verbatim>\<open>false\<close>, and the
  number of calls of a delete that returned \<^verbatim>\<open>true\<close>.\<close>

fun is_insert :: "'a operation \<Rightarrow> bool" where
  "is_insert (OpReplaceOrInsert x) = True"
| "is_insert _ = False"

definition inserted :: "'a operation list \<Rightarrow> ('a \<times> bool) list \<Rightarrow> nat" where
  "inserted ops rs = length (filter (\<lambda>(op, r). is_insert op \<and> \<not> snd r) (zip ops rs))"

definition deleted :: "'a operation list \<Rightarrow> ('a \<times> bool) list \<Rightarrow> nat" where
  "deleted ops rs = length (filter (\<lambda>(op, r). \<not> is_insert op \<and> snd r) (zip ops rs))"

text \<open>The tree of the specification's examples: degree 2, keys 10, 20, 5, 6, 12, 30, 7, 17
  inserted in that order.\<close>

definition example_root :: "nat node" where
  "example_root = Node [10, 20] [Node [5, 6, 7] [], Node [12, 17] [], Node [30] []]"

definition example_tree :: "nat BTree" where
  "example_tree = \<lparr>degree = 2, t_length = 8, root = Some example_root,
                    t_freelist = NewFreeList DefaultFreeListSize\<rparr>"


section \<open>Binary search\<close>

lemma swo_irrefl: "strict_weak_order lt \<Longrightarrow> \<not> lt a a"
  by (simp add: strict_weak_order_def)

lemma swo_trans: "strict_weak_order lt \<Longrightarrow> lt a b \<Longrightarrow> lt b c \<Longrightarrow> lt a c"
  unfolding strict_weak_order_def by blast

lemma swo_asym: "strict_weak_order lt \<Longrightarrow> lt a b \<Longrightarrow> \<not> lt b a"
  unfolding strict_weak_order_def by blast

lemma swo_ntrans: "strict_weak_order lt \<Longrightarrow> \<not> lt a b \<Longrightarrow> \<not> lt b c \<Longrightarrow> \<not> lt a c"
  unfolding strict_weak_order_def by blast

lemma swo_lt_nlt: "strict_weak_order lt \<Longrightarrow> lt a b \<Longrightarrow> \<not> lt c b \<Longrightarrow> lt a c"
  unfolding strict_weak_order_def by blast

lemma swo_nlt_lt: "strict_weak_order lt \<Longrightarrow> \<not> lt b a \<Longrightarrow> lt b c \<Longrightarrow> lt a c"
  unfolding strict_weak_order_def by blast

lemma swo_nat: "strict_weak_order ((<) :: nat \<Rightarrow> nat \<Rightarrow> bool)"
  by (auto simp: strict_weak_order_def)

lemma search_loop_spec:
  "(\<forall>a b. a \<le> b \<and> b < n \<and> f a \<longrightarrow> f b) \<Longrightarrow> i \<le> j \<Longrightarrow> j \<le> n \<Longrightarrow> (\<forall>k<i. \<not> f k)
     \<Longrightarrow> (\<forall>k. j \<le> k \<and> k < n \<longrightarrow> f k)
     \<Longrightarrow> search_loop i j f \<le> n \<and> (\<forall>k < search_loop i j f. \<not> f k)
         \<and> (\<forall>k. search_loop i j f \<le> k \<and> k < n \<longrightarrow> f k)"
proof (induction i j f rule: search_loop.induct)
  case (1 i j f)
  note mono = "1.prems"(1) and ij = "1.prems"(2) and jn = "1.prems"(3)
    and lo = "1.prems"(4) and hi = "1.prems"(5)
  show ?case
  proof (cases "i < j")
    case False
    then have "search_loop i j f = i" by (simp add: search_loop.simps [of i j f])
    moreover have "i = j" using False ij by simp
    ultimately show ?thesis using jn lo hi by simp
  next
    case True
    define h where "h = (i + j) div 2"
    have hij: "i \<le> h" "h < j" using True by (auto simp: h_def)
    show ?thesis
    proof (cases "f h")
      case True
      have up: "\<forall>k. h \<le> k \<and> k < n \<longrightarrow> f k"
        using mono True by blast
      have hn: "h \<le> n" using hij jn by simp
      have eq: "search_loop i j f = search_loop i h f"
        using \<open>i < j\<close> True by (simp add: search_loop.simps [of i j f] h_def Let_def)
      have nn: "\<not> \<not> f h" using True by simp
      show ?thesis
        unfolding eq by (rule "1.IH"(2) [OF \<open>i < j\<close> h_def nn mono hij(1) hn lo up])
    next
      case False
      have low: "\<forall>k<h + 1. \<not> f k"
      proof (intro allI impI)
        fix k assume "k < h + 1"
        then have kh: "k \<le> h" by simp
        have "h < n" using hij jn by simp
        with mono kh False show "\<not> f k" by blast
      qed
      have h1: "h + 1 \<le> j" using hij by simp
      have eq: "search_loop i j f = search_loop (h + 1) j f"
        using \<open>i < j\<close> False by (simp add: search_loop.simps [of i j f] h_def Let_def)
      show ?thesis
        unfolding eq by (rule "1.IH"(1) [OF \<open>i < j\<close> h_def False mono h1 jn low hi])
    qed
  qed
qed

lemma Search_spec:
  assumes "\<forall>a b. a \<le> b \<and> b < n \<and> f a \<longrightarrow> f b"
  shows "Search n f \<le> n" "\<forall>k < Search n f. \<not> f k" "\<forall>k. Search n f \<le> k \<and> k < n \<longrightarrow> f k"
proof -
  have "search_loop 0 n f \<le> n \<and> (\<forall>k < search_loop 0 n f. \<not> f k)
         \<and> (\<forall>k. search_loop 0 n f \<le> k \<and> k < n \<longrightarrow> f k)"
    by (rule search_loop_spec [OF assms]) auto
  then show "Search n f \<le> n" "\<forall>k < Search n f. \<not> f k"
    "\<forall>k. Search n f \<le> k \<and> k < n \<longrightarrow> f k"
    unfolding Search_def by blast+
qed

lemma sorted_wrt_mono_lt:
  assumes "strict_weak_order lt" "sorted_wrt lt s"
  shows "\<forall>a b. a \<le> b \<and> b < length s \<and> lt item (s ! a) \<longrightarrow> lt item (s ! b)"
proof (intro allI impI)
  fix a b assume h: "a \<le> b \<and> b < length s \<and> lt item (s ! a)"
  show "lt item (s ! b)"
  proof (cases "a = b")
    case True with h show ?thesis by simp
  next
    case False
    with h have "lt (s ! a) (s ! b)" using assms(2) by (simp add: sorted_wrt_iff_nth_less)
    with h assms(1) show ?thesis by (blast intro: swo_trans)
  qed
qed

lemma items_find_not_found:
  assumes "strict_weak_order lt" "sorted_wrt lt s" "items_find lt s item = (i, False)"
  shows "i \<le> length s" "\<forall>k<i. lt (s ! k) item" "\<forall>k. i \<le> k \<and> k < length s \<longrightarrow> lt item (s ! k)"
proof -
  define r where "r = Search (length s) (\<lambda>i. lt item (s ! i))"
  note sp = Search_spec [OF sorted_wrt_mono_lt [OF assms(1,2), of item], folded r_def]
  from assms(3) have ri: "i = r" and c: "r = 0 \<or> lt (s ! (r - 1)) item"
    by (auto simp: items_find_def Let_def r_def [symmetric] split: if_splits)
  show "i \<le> length s" using sp(1) ri by simp
  show "\<forall>k. i \<le> k \<and> k < length s \<longrightarrow> lt item (s ! k)" using sp(3) ri by simp
  show "\<forall>k<i. lt (s ! k) item"
  proof (intro allI impI)
    fix k assume "k < i"
    then have r0: "r > 0" and lt1: "lt (s ! (r - 1)) item" and kr: "k \<le> r - 1" using c ri by auto
    show "lt (s ! k) item"
    proof (cases "k = r - 1")
      case True with lt1 show ?thesis by simp
    next
      case False
      with kr r0 sp(1) have "lt (s ! k) (s ! (r - 1))"
        using assms(2) by (simp add: sorted_wrt_iff_nth_less)
      with lt1 assms(1) show ?thesis by (blast intro: swo_trans)
    qed
  qed
qed

lemma items_find_found:
  assumes "strict_weak_order lt" "sorted_wrt lt s" "items_find lt s item = (i, True)"
  shows "i < length s" "\<not> lt (s ! i) item" "\<not> lt item (s ! i)"
proof -
  define r where "r = Search (length s) (\<lambda>i. lt item (s ! i))"
  note sp = Search_spec [OF sorted_wrt_mono_lt [OF assms(1,2), of item], folded r_def]
  from assms(3) have ri: "i = r - 1" and c: "r > 0" "\<not> lt (s ! (r - 1)) item"
    by (auto simp: items_find_def Let_def r_def [symmetric] split: if_splits)
  show "i < length s" using sp(1) ri c by simp
  show "\<not> lt (s ! i) item" using c ri by simp
  show "\<not> lt item (s ! i)" using sp(2) c ri by simp
qed

lemma items_find_cases:
  obtains (found) i where "items_find lt s item = (i, True)"
        | (absent) i where "items_find lt s item = (i, False)"
  by (cases "items_find lt s item") (rename_tac i b, case_tac b, auto)

lemma items_find_no_equiv:
  assumes "strict_weak_order lt" "sorted_wrt lt s" "items_find lt s item = (i, False)"
  shows "\<not> (\<exists>x \<in> set s. equiv_items lt x item)"
proof
  note nf = items_find_not_found [OF assms]
  assume "\<exists>x \<in> set s. equiv_items lt x item"
  then obtain k where k: "k < length s" "equiv_items lt (s ! k) item"
    by (auto simp: in_set_conv_nth)
  show False
  proof (cases "k < i")
    case True with nf(2) k(2) show False by (simp add: equiv_items_def)
  next
    case False with nf(3) k show False by (simp add: equiv_items_def)
  qed
qed

section \<open>In-order sequences\<close>

lemma weave_lefts:
  "length ls1 = length xs1 \<Longrightarrow> weave (xs1 @ xs2) (ls1 @ l # ls2) = lefts xs1 ls1 @ weave xs2 (l # ls2)"
proof (induction xs1 arbitrary: ls1)
  case Nil then show ?case by (simp add: lefts_def)
next
  case (Cons x xs1)
  then obtain m ms where "ls1 = m # ms" by (cases ls1) auto
  with Cons show ?case by (simp add: lefts_def)
qed

lemma weave_rights:
  "length ls2 = length xs2 \<Longrightarrow> weave xs2 (l # ls2) = l @ rights xs2 ls2"
proof (induction xs2 arbitrary: l ls2)
  case Nil then show ?case by (simp add: rights_def)
next
  case (Cons x xs2)
  then obtain m ms where "ls2 = m # ms" by (cases ls2) auto
  with Cons show ?case by (simp add: rights_def)
qed

lemma weave_focus:
  "length ls1 = length xs1 \<Longrightarrow> length ls2 = length xs2 \<Longrightarrow>
   weave (xs1 @ xs2) (ls1 @ l # ls2) = lefts xs1 ls1 @ l @ rights xs2 ls2"
  by (simp add: weave_lefts weave_rights)

lemma inorder_focus:
  assumes "length (children n) = length (items n) + 1" "i \<le> length (items n)"
  shows "inorder n = left_of n i @ inorder (children n ! i) @ right_of n i"
proof -
  obtain its cs where n: "n = Node its cs" by (cases n)
  have cs: "cs = take i cs @ cs ! i # drop (Suc i) cs"
    using assms n by (simp add: id_take_nth_drop)
  have "weave its (map inorder cs)
      = weave (take i its @ drop i its) (map inorder (take i cs) @ inorder (cs ! i) # map inorder (drop (Suc i) cs))"
    by (subst cs) simp
  also have "\<dots> = lefts (take i its) (map inorder (take i cs)) @ inorder (cs ! i)
                   @ rights (drop i its) (map inorder (drop (Suc i) cs))"
    using assms n by (intro weave_focus) auto
  finally show ?thesis by (simp add: n left_of_def right_of_def)
qed

lemma lefts_snoc:
  "length ls = length xs \<Longrightarrow> lefts (xs @ [x]) (ls @ [l]) = lefts xs ls @ l @ [x]"
  by (simp add: lefts_def)

lemma rights_Cons: "rights (x # xs) (l # ls) = x # l @ rights xs ls"
  by (simp add: rights_def)

lemma lefts_Nil [simp]: "lefts [] ls = []" "lefts xs [] = []"
  by (simp_all add: lefts_def)

lemma rights_Nil [simp]: "rights [] ls = []" "rights xs [] = []"
  by (simp_all add: rights_def)

lemma left_of_0 [simp]: "left_of n 0 = []"
  by (simp add: left_of_def)

lemma left_of_Suc:
  assumes "length (children n) = length (items n) + 1" "i < length (items n)"
  shows "left_of n (Suc i) = left_of n i @ inorder (children n ! i) @ [items n ! i]"
  using assms by (simp add: left_of_def take_Suc_conv_app_nth lefts_snoc)

lemma right_of_end [simp]: "length (items n) \<le> i \<Longrightarrow> right_of n i = []"
  by (simp add: right_of_def)

lemma right_of_step:
  assumes "length (children n) = length (items n) + 1" "i < length (items n)"
  shows "right_of n i = items n ! i # inorder (children n ! Suc i) @ right_of n (Suc i)"
proof -
  have "drop i (items n) = items n ! i # drop (Suc i) (items n)"
    using assms by (simp add: Cons_nth_drop_Suc)
  moreover have "drop (Suc i) (children n) = children n ! Suc i # drop (Suc (Suc i)) (children n)"
    using assms by (simp add: Cons_nth_drop_Suc)
  ultimately show ?thesis by (simp add: right_of_def rights_Cons)
qed

section \<open>Ascending lists\<close>

lemma ins_list_left:
  "strict_weak_order lt \<Longrightarrow> \<forall>y \<in> set xs. lt y x \<Longrightarrow> ins_list lt x (xs @ ys) = xs @ ins_list lt x ys"
  by (induction xs) (auto dest: swo_asym)

lemma ins_list_right:
  "\<forall>y \<in> set ys. lt x y \<Longrightarrow> ins_list lt x (xs @ ys) = ins_list lt x xs @ ys"
proof (induction xs)
  case Nil then show ?case by (cases ys) auto
next
  case (Cons a xs) then show ?case by auto
qed

lemma ins_list_mid:
  assumes "strict_weak_order lt" "\<forall>y \<in> set L. lt y x" "\<forall>y \<in> set R. lt x y"
  shows "ins_list lt x (L @ C @ R) = L @ ins_list lt x C @ R"
  using assms by (simp add: ins_list_left ins_list_right)

lemma ins_list_replace:
  assumes "strict_weak_order lt" "\<forall>y \<in> set L. lt y x" "\<not> lt a x" "\<not> lt x a"
  shows "ins_list lt x (L @ a # R) = L @ x # R"
  using assms(3,4) by (simp add: ins_list_left [OF assms(1,2)])

lemma set_ins_list: "set (ins_list lt x xs) \<subseteq> insert x (set xs)"
  by (induction xs) auto

lemma sorted_ins_list:
  assumes "strict_weak_order lt"
  shows "sorted_wrt lt xs \<Longrightarrow> sorted_wrt lt (ins_list lt x xs)"
proof (induction xs)
  case Nil then show ?case by simp
next
  case (Cons a xs)
  have s: "sorted_wrt lt xs" and a: "\<forall>y \<in> set xs. lt a y" using Cons.prems by auto
  show ?case
  proof (cases "lt x a")
    case True
    then have "\<forall>y \<in> set xs. lt x y" using a assms by (blast intro: swo_trans)
    with True Cons.prems show ?thesis by simp
  next
    case False
    show ?thesis
    proof (cases "lt a x")
      case True
      have "\<forall>y \<in> set (ins_list lt x xs). lt a y"
        using set_ins_list [of lt x xs] a True by auto
      with True False Cons.IH [OF s] show ?thesis by simp
    next
      case na: False
      have "\<forall>y \<in> set xs. lt x y" using a na assms by (blast intro: swo_nlt_lt)
      with na False s show ?thesis by simp
    qed
  qed
qed

lemma no_equiv_below:
  assumes "strict_weak_order lt" "lt x a" "\<forall>y \<in> set xs. lt a y"
  shows "\<not> (\<exists>y \<in> set (a # xs). equiv_items lt y x)"
proof -
  have "\<forall>y \<in> set (a # xs). lt x y" using assms by (auto intro: swo_trans)
  then show ?thesis by (auto simp: equiv_items_def)
qed

lemma length_ins_list:
  assumes "strict_weak_order lt"
  shows "sorted_wrt lt xs \<Longrightarrow>
    length (ins_list lt x xs) = (if \<exists>y \<in> set xs. equiv_items lt y x then length xs else Suc (length xs))"
proof (induction xs)
  case Nil then show ?case by simp
next
  case (Cons a xs)
  have s: "sorted_wrt lt xs" and a: "\<forall>y \<in> set xs. lt a y" using Cons.prems by auto
  show ?case
  proof (cases "lt x a")
    case True
    from no_equiv_below [OF assms True a] True show ?thesis by simp
  next
    case False
    show ?thesis
    proof (cases "lt a x")
      case True
      then have "\<not> equiv_items lt a x" by (simp add: equiv_items_def)
      with True False Cons.IH [OF s] show ?thesis by simp
    next
      case na: False
      with False have "equiv_items lt a x" by (simp add: equiv_items_def)
      with na False show ?thesis by auto
    qed
  qed
qed

lemma ins_list_overwrites:
  assumes "strict_weak_order lt"
  shows "sorted_wrt lt xs \<Longrightarrow> \<exists>y \<in> set xs. equiv_items lt y x \<Longrightarrow>
    \<exists>k < length xs. equiv_items lt (xs ! k) x \<and> ins_list lt x xs = xs[k := x]"
proof (induction xs)
  case Nil then show ?case by simp
next
  case (Cons a xs)
  have s: "sorted_wrt lt xs" and a: "\<forall>y \<in> set xs. lt a y" using Cons.prems by auto
  show ?case
  proof (cases "lt x a")
    case True
    from no_equiv_below [OF assms True a] Cons.prems(2) show ?thesis by blast
  next
    case False
    show ?thesis
    proof (cases "lt a x")
      case True
      then have "\<not> equiv_items lt a x" by (simp add: equiv_items_def)
      with Cons.prems(2) have "\<exists>y \<in> set xs. equiv_items lt y x" by auto
      from Cons.IH [OF s this] obtain k where
        k: "k < length xs" "equiv_items lt (xs ! k) x" "ins_list lt x xs = xs[k := x]" by blast
      have "Suc k < length (a # xs) \<and> equiv_items lt ((a # xs) ! Suc k) x
            \<and> ins_list lt x (a # xs) = (a # xs)[Suc k := x]"
        using k True False by simp
      then show ?thesis by blast
    next
      case na: False
      have "0 < length (a # xs) \<and> equiv_items lt ((a # xs) ! 0) x
            \<and> ins_list lt x (a # xs) = (a # xs)[0 := x]"
        using na False by (simp add: equiv_items_def)
      then show ?thesis by blast
    qed
  qed
qed

lemma del_list_left:
  "strict_weak_order lt \<Longrightarrow> \<forall>y \<in> set xs. lt y x \<Longrightarrow> del_list lt x (xs @ ys) = xs @ del_list lt x ys"
  by (induction xs) (auto dest: swo_asym)

lemma del_list_right:
  "\<forall>y \<in> set ys. lt x y \<Longrightarrow> del_list lt x (xs @ ys) = del_list lt x xs @ ys"
proof (induction xs)
  case Nil then show ?case by (cases ys) auto
next
  case (Cons a xs) then show ?case by auto
qed

lemma del_list_mid:
  assumes "strict_weak_order lt" "\<forall>y \<in> set L. lt y x" "\<forall>y \<in> set R. lt x y"
  shows "del_list lt x (L @ C @ R) = L @ del_list lt x C @ R"
  using assms by (simp add: del_list_left del_list_right)

lemma del_list_hit:
  assumes "strict_weak_order lt" "\<forall>y \<in> set L. lt y x" "\<not> lt a x" "\<not> lt x a"
  shows "del_list lt x (L @ a # R) = L @ R"
  using assms(3,4) by (simp add: del_list_left [OF assms(1,2)])

lemma del_list_absent:
  "\<not> (\<exists>y \<in> set xs. equiv_items lt y x) \<Longrightarrow> del_list lt x xs = xs"
  by (induction xs) (auto simp: equiv_items_def)

lemma set_del_list: "set (del_list lt x xs) \<subseteq> set xs"
  by (induction xs) auto

lemma sorted_del_list: "sorted_wrt lt xs \<Longrightarrow> sorted_wrt lt (del_list lt x xs)"
proof (induction xs)
  case Nil then show ?case by simp
next
  case (Cons a xs)
  then show ?case using set_del_list [of lt x xs] by auto
qed

lemma length_del_list:
  assumes "strict_weak_order lt"
  shows "sorted_wrt lt xs \<Longrightarrow>
    length (del_list lt x xs) = (if \<exists>y \<in> set xs. equiv_items lt y x then length xs - 1 else length xs)"
proof (induction xs)
  case Nil then show ?case by simp
next
  case (Cons a xs)
  have s: "sorted_wrt lt xs" and a: "\<forall>y \<in> set xs. lt a y" using Cons.prems by auto
  show ?case
  proof (cases "lt x a")
    case True
    from no_equiv_below [OF assms True a] True show ?thesis by simp
  next
    case False
    show ?thesis
    proof (cases "lt a x")
      case True
      then have na: "\<not> equiv_items lt a x" by (simp add: equiv_items_def)
      show ?thesis
      proof (cases "\<exists>y \<in> set xs. equiv_items lt y x")
        case True
        then have "xs \<noteq> []" by auto
        then have "length xs > 0" by simp
        with True \<open>lt a x\<close> False Cons.IH [OF s] show ?thesis by auto
      next
        case False
        with na True \<open>\<not> lt x a\<close> Cons.IH [OF s] show ?thesis by auto
      qed
    next
      case na: False
      with False have "equiv_items lt a x" by (simp add: equiv_items_def)
      with na False show ?thesis by auto
    qed
  qed
qed

text \<open>In a sorted in-order sequence, everything left of child \<open>j\<close> is below an item that is
  above item \<open>j - 1\<close>, and everything right of it is above an item that is below item \<open>j\<close>.\<close>

lemma left_of_last:
  assumes "length (children n) = length (items n) + 1" "0 < j" "j \<le> length (items n)"
  shows "\<exists>ys. left_of n j = ys @ [items n ! (j - 1)]"
proof -
  obtain k where k: "j = Suc k" using assms(2) by (cases j) auto
  with assms show ?thesis using left_of_Suc [of n k] by simp
qed

lemma sorted_sides:
  assumes swo: "strict_weak_order lt"
    and len: "length (children n) = length (items n) + 1" and j: "j \<le> length (items n)"
    and srt: "sorted_wrt lt (inorder n)"
    and lo: "0 < j \<longrightarrow> lt (items n ! (j - 1)) x"
    and hi: "j < length (items n) \<longrightarrow> lt x (items n ! j)"
  shows "\<forall>y \<in> set (left_of n j). lt y x" "\<forall>y \<in> set (right_of n j). lt x y"
proof -
  note foc = inorder_focus [OF len j]
  show "\<forall>y \<in> set (left_of n j). lt y x"
  proof (cases "0 < j")
    case False then show ?thesis by simp
  next
    case True
    from left_of_last [OF len True j] obtain ys where ys: "left_of n j = ys @ [items n ! (j - 1)]" ..
    have "sorted_wrt lt (ys @ [items n ! (j - 1)])"
      using srt unfolding foc ys by (simp add: sorted_wrt_append)
    then have "\<forall>y \<in> set ys. lt y (items n ! (j - 1))" by (simp add: sorted_wrt_append)
    then have "\<forall>y \<in> set ys. lt y x" using lo True swo by (blast intro: swo_trans)
    with lo True show ?thesis by (simp add: ys)
  qed
  show "\<forall>y \<in> set (right_of n j). lt x y"
  proof (cases "j < length (items n)")
    case False then show ?thesis by simp
  next
    case True
    from right_of_step [OF len True] obtain ys where ys: "right_of n j = items n ! j # ys" by blast
    have "sorted_wrt lt (items n ! j # ys)"
      using srt unfolding foc ys by (simp add: sorted_wrt_append)
    then have "\<forall>y \<in> set ys. lt (items n ! j) y" by simp
    then have "\<forall>y \<in> set ys. lt x y" using hi True swo by (blast intro: swo_trans)
    with hi True show ?thesis by (simp add: ys)
  qed
qed

section \<open>Shape of nodes, splitting\<close>

lemma wf_shaped:
  "wf_node lo hi h n \<longleftrightarrow> shaped lo hi h n \<and> lo \<le> length (items n) \<and> length (items n) \<le> hi"
  by (cases n; cases h) (auto simp: shaped_def)

lemma shaped_0 [simp]: "shaped lo hi 0 n \<longleftrightarrow> children n = []"
  by (simp add: shaped_def)

lemma shaped_Suc:
  "shaped lo hi (Suc h) n \<longleftrightarrow>
     length (children n) = length (items n) + 1 \<and> (\<forall>c \<in> set (children n). wf_node lo hi h c)"
  by (simp add: shaped_def)

lemma shaped_child:
  "shaped lo hi (Suc h) n \<Longrightarrow> i \<le> length (items n) \<Longrightarrow> wf_node lo hi h (children n ! i)"
  by (simp add: shaped_Suc)

lemma shaped_update:
  assumes "shaped lo hi (Suc h) n" "wf_node lo hi h c"
  shows "shaped lo hi (Suc h) (Node (items n) ((children n)[i := c]))"
  using assms set_update_subset_insert [of "children n" i c] by (auto simp: shaped_Suc)

lemma shaped_items_update:
  assumes "shaped lo hi h n"
  shows "shaped lo hi h (Node ((items n)[i := x]) (children n))"
  using assms by (cases h) (auto simp: shaped_Suc)

lemma newNode_ok:
  assumes "fl_ok f"
  shows "fst (newNode f) = Node [] []" "fl_ok (snd (newNode f))"
proof -
  show "fst (newNode f) = Node [] []"
    using assms by (auto simp: newNode_def FreeList_newNode_def fl_ok_def)
  show "fl_ok (snd (newNode f))"
    using assms by (auto simp: newNode_def FreeList_newNode_def fl_ok_def dest: in_set_butlastD)
qed

lemma freeNode_ok: "fl_ok f \<Longrightarrow> fl_ok (freeNode f n)"
  by (auto simp: freeNode_def FreeList_freeNode_def fl_ok_def items_truncate_def)

lemma node_split_ok:
  assumes "fl_ok f" "shaped lo hi h n" "i < length (items n)"
  shows "node_split n i f =
     Some (items n ! i, Node (take i (items n)) (take (Suc i) (children n)),
           Node (drop (Suc i) (items n)) (drop (Suc i) (children n)), snd (newNode f))"
proof -
  obtain nx f' where nf: "newNode f = (nx, f')" by (cases "newNode f")
  with newNode_ok [OF assms(1)] have nx: "nx = Node [] []" by simp
  show ?thesis
    using assms(2,3) by (cases h) (auto simp: node_split_def nth_opt_def nf nx items_truncate_def shaped_Suc)
qed

lemma shaped_split_left:
  assumes "shaped lo hi h n" "i < length (items n)"
  shows "shaped lo hi h (Node (take i (items n)) (take (Suc i) (children n)))"
  using assms by (cases h) (auto simp: shaped_Suc dest: in_set_takeD)

lemma shaped_split_right:
  assumes "shaped lo hi h n" "i < length (items n)"
  shows "shaped lo hi h (Node (drop (Suc i) (items n)) (drop (Suc i) (children n)))"
  using assms by (cases h) (auto simp: shaped_Suc dest: in_set_dropD)

lemma inorder_leaf [simp]: "children n = [] \<Longrightarrow> inorder n = items n"
  by (cases n) simp

lemma inorder_item_split:
  assumes "shaped lo hi h n" "i < length (items n)"
  shows "\<exists>pre post. inorder n = pre @ items n ! i # post
     \<and> (\<forall>x. inorder (Node ((items n)[i := x]) (children n)) = pre @ x # post)
     \<and> inorder (Node (take i (items n)) (take (Suc i) (children n))) = pre
     \<and> inorder (Node (drop (Suc i) (items n)) (drop (Suc i) (children n))) = post"
proof (cases h)
  case 0
  with assms have cs: "children n = []" by simp
  have "inorder n = take i (items n) @ items n ! i # drop (Suc i) (items n)"
    using assms(2) cs by (simp add: id_take_nth_drop [symmetric])
  moreover have "\<forall>x. inorder (Node ((items n)[i := x]) (children n))
      = take i (items n) @ x # drop (Suc i) (items n)"
    using assms(2) cs by (simp add: upd_conv_take_nth_drop)
  ultimately show ?thesis using cs by simp
next
  case (Suc h')
  with assms have len: "length (children n) = length (items n) + 1" by (simp add: shaped_Suc)
  define pre where "pre = left_of n i @ inorder (children n ! i)"
  define post where "post = inorder (children n ! Suc i) @ right_of n (Suc i)"
  have 1: "inorder n = pre @ items n ! i # post"
    using inorder_focus [OF len, of i] right_of_step [OF len assms(2)] assms(2)
    by (simp add: pre_def post_def)
  have 2: "inorder (Node ((items n)[i := x]) (children n)) = pre @ x # post" for x
  proof -
    let ?n = "Node ((items n)[i := x]) (children n)"
    have l: "length (children ?n) = length (items ?n) + 1" using len by simp
    have "right_of ?n i = x # inorder (children n ! Suc i) @ right_of ?n (Suc i)"
      using right_of_step [OF l] assms(2) by simp
    moreover have "right_of ?n (Suc i) = right_of n (Suc i)" by (simp add: right_of_def)
    moreover have "left_of ?n i = left_of n i" by (simp add: left_of_def)
    ultimately show ?thesis
      using inorder_focus [OF l, of i] assms(2) by (simp add: pre_def post_def)
  qed
  have 3: "inorder (Node (take i (items n)) (take (Suc i) (children n))) = pre"
  proof -
    let ?n = "Node (take i (items n)) (take (Suc i) (children n))"
    have l: "length (children ?n) = length (items ?n) + 1" using len assms(2) by simp
    have "left_of ?n i = left_of n i" by (simp add: left_of_def min_def)
    then show ?thesis
      using inorder_focus [OF l, of i] assms(2) len by (simp add: pre_def)
  qed
  have 4: "inorder (Node (drop (Suc i) (items n)) (drop (Suc i) (children n))) = post"
  proof -
    let ?n = "Node (drop (Suc i) (items n)) (drop (Suc i) (children n))"
    have l: "length (children ?n) = length (items ?n) + 1" using len assms(2) by simp
    have "right_of ?n 0 = right_of n (Suc i)" by (simp add: right_of_def)
    then show ?thesis
      using inorder_focus [OF l, of 0] assms(2) len by (simp add: post_def)
  qed
  from 1 2 3 4 show ?thesis by blast
qed

lemma take_Suc_update: "i < length cs \<Longrightarrow> take (Suc i) (cs[i := c]) = take i cs @ [c]"
  by (simp add: take_Suc_conv_app_nth)

lemma maybeSplitChild_ok:
  assumes fl: "fl_ok f" and sh: "shaped lo hi (Suc h) n" and i: "i \<le> length (items n)"
    and hi: "hi = 2 * lo + 1"
  shows "\<exists>b n1 f1. node_maybeSplitChild n i hi f = Some (b, n1, f1) \<and> fl_ok f1
     \<and> shaped lo hi (Suc h) n1 \<and> inorder n1 = inorder n
     \<and> (\<not> b \<longrightarrow> n1 = n \<and> length (items (children n ! i)) < hi)
     \<and> (b \<longrightarrow> (\<exists>m. items n1 = take i (items n) @ m # drop i (items n))
            \<and> length (items (children n1 ! i)) < hi
            \<and> length (items (children n1 ! Suc i)) < hi)"
proof -
  define its where "its = items n"
  define cs where "cs = children n"
  define c where "c = cs ! i"
  have len: "length cs = length its + 1" and all: "\<forall>c \<in> set cs. wf_node lo hi h c"
    using sh by (simp_all add: shaped_Suc its_def cs_def)
  have ics: "i < length cs" using i len its_def by simp
  have c: "wf_node lo hi h c" using all ics c_def by simp
  then have csh: "shaped lo hi h c" and cb: "lo \<le> length (items c)" "length (items c) \<le> hi"
    by (simp_all add: wf_shaped)
  have first: "nth_opt (children n) i = Some c"
    using ics by (simp add: nth_opt_def cs_def c_def)
  have first': "nth_opt cs i = Some c"
    using first by (simp add: cs_def)
  show ?thesis
  proof (cases "length (items c) < hi")
    case True
    then have "node_maybeSplitChild n i hi f = Some (False, n, f)"
      by (simp add: node_maybeSplitChild_def first)
    with fl sh True show ?thesis
      by (intro exI [of _ False] exI [of _ n] exI [of _ f]) (simp add: c_def cs_def)
  next
    case False
    with cb have full: "length (items c) = hi" by simp
    have lo: "lo < length (items c)" "hi div 2 = lo" using full hi by simp_all
    define m where "m = items c ! lo"
    define c1 where "c1 = Node (take lo (items c)) (take (Suc lo) (children c))"
    define c2 where "c2 = Node (drop (Suc lo) (items c)) (drop (Suc lo) (children c))"
    define n1 where "n1 = Node (take i its @ m # drop i its) (take i cs @ c1 # c2 # drop (Suc i) cs)"
    have sp: "node_split c lo f = Some (m, c1, c2, snd (newNode f))"
      using node_split_ok [OF fl csh lo(1)] by (simp add: m_def c1_def c2_def)
    have res: "node_maybeSplitChild n i hi f = Some (True, n1, snd (newNode f))"
      unfolding node_maybeSplitChild_def its_def [symmetric] cs_def [symmetric]
      using False i ics
      by (simp add: first' lo(2) sp items_insertAt_def its_def [symmetric] len n1_def
          take_Suc_update)
    have w1: "wf_node lo hi h c1"
      using shaped_split_left [OF csh lo(1)] lo(1) hi by (simp add: wf_shaped c1_def)
    have w2: "wf_node lo hi h c2"
      using shaped_split_right [OF csh lo(1)] full hi by (simp add: wf_shaped c2_def)
    have "\<forall>x \<in> set (take i cs @ c1 # c2 # drop (Suc i) cs). wf_node lo hi h x"
      using all w1 w2 by (auto dest: in_set_takeD in_set_dropD)
    then have sh1: "shaped lo hi (Suc h) n1"
      using len i its_def by (simp add: shaped_Suc n1_def)
    from inorder_item_split [OF csh lo(1)] have ic: "inorder c = inorder c1 @ m # inorder c2"
      by (auto simp: c1_def c2_def m_def)
    have l0: "length (children n) = length (items n) + 1" using len by (simp add: its_def cs_def)
    have "inorder n = left_of n i @ inorder c @ right_of n i"
      using inorder_focus [OF l0 i] by (simp add: c_def cs_def)
    moreover have "inorder n1 = lefts (take i its) (map inorder (take i cs)) @ inorder c1
        @ rights (m # drop i its) (map inorder (c2 # drop (Suc i) cs))"
      unfolding n1_def inorder.simps map_append list.map
      using i len its_def by (intro weave_focus) auto
    ultimately have io: "inorder n1 = inorder n"
      by (simp add: ic left_of_def right_of_def rights_Cons its_def cs_def)
    have ch: "children n1 ! i = c1" "children n1 ! Suc i = c2"
      using ics by (simp_all add: n1_def nth_append)
    have sz: "length (items c1) < hi" "length (items c2) < hi"
      using full hi by (simp_all add: c1_def c2_def)
    have "\<exists>m. items n1 = take i (items n) @ m # drop i (items n)"
      by (simp add: n1_def its_def)
    with res newNode_ok(2) [OF fl] sh1 io ch sz show ?thesis
      by (intro exI [of _ True] exI [of _ n1] exI [of _ "snd (newNode f)"]) simp
  qed
qed

section \<open>Insertion\<close>

lemma set_weave_items: "set xs \<subseteq> set (weave xs ls)"
  by (induction xs ls rule: weave.induct) auto

lemma sorted_weave_items: "sorted_wrt lt (weave xs ls) \<Longrightarrow> sorted_wrt lt xs"
proof (induction xs ls rule: weave.induct)
  case (3 x xs l ls)
  then have "sorted_wrt lt xs" "\<forall>y \<in> set (weave xs ls). lt x y"
    by (auto simp: sorted_wrt_append)
  then show ?case using set_weave_items [of xs ls] by auto
qed auto

lemma sorted_items: "sorted_wrt lt (inorder n) \<Longrightarrow> sorted_wrt lt (items n)"
  by (cases n) (auto dest: sorted_weave_items)

lemma set_items_inorder: "set (items n) \<subseteq> set (inorder n)"
  by (cases n) (simp add: set_weave_items)

text \<open>Overwriting item \<open>i\<close> of a node by an element equal to it.\<close>

lemma replace_item:
  assumes swo: "strict_weak_order lt" and sh: "shaped lo hi h n" and i: "i < length (items n)"
    and srt: "sorted_wrt lt (inorder n)"
    and eq: "\<not> lt (items n ! i) item" "\<not> lt item (items n ! i)"
  shows "inorder (Node ((items n)[i := item]) (children n)) = ins_list lt item (inorder n)"
proof -
  from inorder_item_split [OF sh i] obtain pre post where
    io: "inorder n = pre @ items n ! i # post"
    and up: "inorder (Node ((items n)[i := item]) (children n)) = pre @ item # post" by blast
  have "\<forall>y \<in> set pre. lt y (items n ! i)" using srt unfolding io by (simp add: sorted_wrt_append)
  then have "\<forall>y \<in> set pre. lt y item" using eq(2) swo by (blast intro: swo_lt_nlt)
  from ins_list_replace [OF swo this eq, of post] show ?thesis unfolding io up by simp
qed

lemma insert_found:
  assumes swo: "strict_weak_order lt" and sh: "shaped lo hi h n" and i: "i < length (items n)"
    and srt: "sorted_wrt lt (inorder n)" and fl: "fl_ok f"
    and eq: "\<not> lt (items n ! i) item" "\<not> lt item (items n ! i)"
  shows "insert_post lt zero item lo hi h n
           (Some ((items n ! i, True), Node ((items n)[i := item]) (children n), f))"
proof -
  have "items n ! i \<in> set (inorder n)" using i set_items_inorder [of n] by auto
  moreover have "equiv_items lt (items n ! i) item" using eq by (simp add: equiv_items_def)
  ultimately show ?thesis
    using replace_item [OF swo sh i srt eq] shaped_items_update [OF sh] fl
    by (auto simp: insert_post_def)
qed

lemma ins_list_above: "\<forall>y \<in> set ys. lt x y \<Longrightarrow> ins_list lt x ys = x # ys"
  by (cases ys) auto

lemma insert_leaf:
  assumes swo: "strict_weak_order lt" and sh: "shaped lo hi 0 n"
    and srt: "sorted_wrt lt (inorder n)" and fl: "fl_ok f"
    and nf: "items_find lt (items n) item = (i, False)"
  shows "insert_post lt zero item lo hi 0 n
           (items_insertAt (items n) i item \<bind> (\<lambda>its. Some ((zero, False), Node its (children n), f)))"
proof -
  have cs: "children n = []" using sh by simp
  then have io: "inorder n = items n" by simp
  have s: "sorted_wrt lt (items n)" using srt io by simp
  note sp = items_find_not_found [OF swo s nf]
  have lo: "\<forall>y \<in> set (take i (items n)). lt y item" using sp(1,2) by (auto simp: in_set_conv_nth)
  have hi: "\<forall>y \<in> set (drop i (items n)). lt item y" using sp(1,3) by (auto simp: in_set_conv_nth)
  have "ins_list lt item (take i (items n) @ drop i (items n))
      = take i (items n) @ ins_list lt item (drop i (items n))"
    by (rule ins_list_left [OF swo lo])
  moreover have "ins_list lt item (drop i (items n)) = item # drop i (items n)"
    using hi by (rule ins_list_above)
  ultimately have il: "ins_list lt item (items n) = take i (items n) @ item # drop i (items n)"
    by simp
  have no: "\<not> (\<exists>y \<in> set (items n). equiv_items lt y item)"
    using items_find_no_equiv [OF swo s nf] by simp
  show ?thesis
    using sp(1) fl no by (simp add: insert_post_def items_insertAt_def cs il)
qed

text \<open>Going down into child \<open>j\<close>, which lies on the path of \<open>item\<close>.\<close>

lemma insert_descend:
  assumes swo: "strict_weak_order lt" and sh: "shaped lo hi (Suc h) n"
    and j: "j \<le> length (items n)" and srt: "sorted_wrt lt (inorder n)"
    and lo: "0 < j \<longrightarrow> lt (items n ! (j - 1)) item"
    and hi: "j < length (items n) \<longrightarrow> lt item (items n ! j)"
    and sub: "insert_post lt zero item lo hi h (children n ! j) r"
    and r: "r = Some ((out, b), c', f')" and cb: "length (items c') \<le> hi"
  shows "insert_post lt zero item lo hi (Suc h) n
           (Some ((out, b), Node (items n) ((children n)[j := c']), f'))"
proof -
  let ?c = "children n ! j"
  let ?n' = "Node (items n) ((children n)[j := c'])"
  have len: "length (children n) = length (items n) + 1" using sh by (simp add: shaped_Suc)
  have wc: "wf_node lo hi h ?c" using shaped_child [OF sh j] .
  from sub r have p: "shaped lo hi h c'" "length (items ?c) \<le> length (items c')" "fl_ok f'"
    "inorder c' = ins_list lt item (inorder ?c)"
    "b \<longleftrightarrow> (\<exists>y \<in> set (inorder ?c). equiv_items lt y item)"
    "b \<longrightarrow> out \<in> set (inorder ?c) \<and> equiv_items lt out item" "\<not> b \<longrightarrow> out = zero"
    by (simp_all add: insert_post_def)
  have wc': "wf_node lo hi h c'" using p(1,2) cb wc by (simp add: wf_shaped)
  have sh': "shaped lo hi (Suc h) ?n'" using shaped_update [OF sh wc'] .
  note sides = sorted_sides [OF swo len j srt lo hi]
  have foc: "inorder n = left_of n j @ inorder ?c @ right_of n j" using inorder_focus [OF len j] .
  have len': "length (children ?n') = length (items ?n') + 1" using len by simp
  have j': "j \<le> length (items ?n')" using j by simp
  have "left_of ?n' j = left_of n j" "right_of ?n' j = right_of n j" "children ?n' ! j = c'"
    using j len by (simp_all add: left_of_def right_of_def)
  with inorder_focus [OF len' j'] have "inorder ?n' = left_of n j @ inorder c' @ right_of n j"
    by simp
  also have "\<dots> = ins_list lt item (inorder n)"
    unfolding foc p(4) using ins_list_mid [OF swo sides] by simp
  finally have io: "inorder ?n' = ins_list lt item (inorder n)" .
  have nl: "\<forall>y \<in> set (left_of n j). \<not> equiv_items lt y item"
    using sides(1) by (auto simp: equiv_items_def)
  have nr: "\<forall>y \<in> set (right_of n j). \<not> equiv_items lt y item"
    using sides(2) by (auto simp: equiv_items_def)
  have bq: "b \<longleftrightarrow> (\<exists>y \<in> set (inorder n). equiv_items lt y item)"
    unfolding foc p(5) using nl nr by auto
  have "b \<longrightarrow> out \<in> set (inorder n)" using p(6) foc by simp
  with sh' io bq p show ?thesis by (simp add: insert_post_def)
qed

lemma node_insert_found:
  assumes "items_find lt (items n) item = (i, True)" "i < length (items n)"
  shows "node_insert lt zero n item hi f
       = Some ((items n ! i, True), Node ((items n)[i := item]) (children n), f)"
  using assms by (subst node_insert.simps) (simp add: nth_opt_def)

lemma node_insert_leaf:
  assumes "items_find lt (items n) item = (i, False)" "children n = []"
  shows "node_insert lt zero n item hi f
       = items_insertAt (items n) i item \<bind> (\<lambda>its. Some ((zero, False), Node its (children n), f))"
  using assms by (subst node_insert.simps) simp

lemma node_insert_down:
  assumes "items_find lt (items n) item = (i, False)" "children n \<noteq> []"
    and "node_maybeSplitChild n i hi f = Some (b, n1, f1)"
    and "j < length (children n1)"
    and "\<not> b \<and> j = i \<or> b \<and> i < length (items n1) \<and>
           (lt item (items n1 ! i) \<and> j = i \<or> \<not> lt item (items n1 ! i) \<and> lt (items n1 ! i) item \<and> j = i + 1)"
    and "node_insert lt zero (children n1 ! j) item hi f1 = Some (r, c', f2)"
  shows "node_insert lt zero n item hi f = Some (r, Node (items n1) ((children n1)[j := c']), f2)"
  using assms by (subst node_insert.simps) (auto simp: nth_opt_def)

lemma node_insert_equal:
  assumes "items_find lt (items n) item = (i, False)" "children n \<noteq> []"
    and "node_maybeSplitChild n i hi f = Some (True, n1, f1)"
    and "i < length (items n1)" "\<not> lt item (items n1 ! i)" "\<not> lt (items n1 ! i) item"
  shows "node_insert lt zero n item hi f
       = Some ((items n1 ! i, True), Node ((items n1)[i := item]) (children n1), f1)"
  using assms by (subst node_insert.simps) (auto simp: nth_opt_def)

lemma sorted_child:
  assumes "length (children n) = length (items n) + 1" "j \<le> length (items n)"
    "sorted_wrt lt (inorder n)"
  shows "sorted_wrt lt (inorder (children n ! j))"
  using assms(3) unfolding inorder_focus [OF assms(1,2)] by (simp add: sorted_wrt_append)

lemma insert_post_same_inorder:
  assumes "insert_post lt zero item lo hi h n1 (Some (r, n', f'))"
    and "inorder n1 = inorder n" "length (items n) \<le> length (items n')"
    "length (items n') \<le> Suc (length (items n))"
  shows "insert_post lt zero item lo hi h n (Some (r, n', f'))"
  using assms by (cases r) (simp add: insert_post_def)

lemma node_insert_ok:
  assumes swo: "strict_weak_order lt" and hi: "hi = 2 * lo + 1"
  shows "shaped lo hi h n \<Longrightarrow> length (items n) < hi \<Longrightarrow> sorted_wrt lt (inorder n) \<Longrightarrow> fl_ok f
     \<Longrightarrow> insert_post lt zero item lo hi h n (node_insert lt zero n item hi f)"
proof (induction h arbitrary: n f)
  case 0
  note sh = "0.prems"(1) and srt = "0.prems"(3) and fl = "0.prems"(4)
  have si: "sorted_wrt lt (items n)" using srt by (rule sorted_items)
  show ?case
  proof (cases rule: items_find_cases [of lt "items n" item])
    case (found i)
    note ff = items_find_found [OF swo si found]
    show ?thesis
      unfolding node_insert_found [OF found ff(1)]
      by (rule insert_found [OF swo sh ff(1) srt fl ff(2,3)])
  next
    case (absent i)
    have cs: "children n = []" using sh by simp
    show ?thesis
      unfolding node_insert_leaf [OF absent cs]
      by (rule insert_leaf [OF swo sh srt fl absent])
  qed
next
  case (Suc h)
  note sh = Suc.prems(1) and nfull = Suc.prems(2) and srt = Suc.prems(3) and fl = Suc.prems(4)
  have si: "sorted_wrt lt (items n)" using srt by (rule sorted_items)
  have len: "length (children n) = length (items n) + 1" using sh by (simp add: shaped_Suc)
  show ?case
  proof (cases rule: items_find_cases [of lt "items n" item])
    case (found i)
    note ff = items_find_found [OF swo si found]
    show ?thesis
      unfolding node_insert_found [OF found ff(1)]
      by (rule insert_found [OF swo sh ff(1) srt fl ff(2,3)])
  next
    case (absent i)
    note nf = items_find_not_found [OF swo si absent]
    have cne: "children n \<noteq> []" using len by auto
    from maybeSplitChild_ok [OF fl sh nf(1) hi] obtain b n1 f1 where
      ms: "node_maybeSplitChild n i hi f = Some (b, n1, f1)" and fl1: "fl_ok f1"
      and sh1: "shaped lo hi (Suc h) n1" and io1: "inorder n1 = inorder n"
      and nb: "\<not> b \<longrightarrow> n1 = n \<and> length (items (children n ! i)) < hi"
      and yb: "b \<longrightarrow> (\<exists>m. items n1 = take i (items n) @ m # drop i (items n))
            \<and> length (items (children n1 ! i)) < hi
            \<and> length (items (children n1 ! Suc i)) < hi"
      by blast
    have len1: "length (children n1) = length (items n1) + 1" using sh1 by (simp add: shaped_Suc)
    have srt1: "sorted_wrt lt (inorder n1)" using srt io1 by simp
    have il: "length (items n) \<le> length (items n1)" "length (items n1) \<le> Suc (length (items n))"
      using nb yb by (cases b; auto)+
    text \<open>The descent into child \<open>j\<close> of \<open>n1\<close>.\<close>
    have down: "insert_post lt zero item lo hi (Suc h) n (node_insert lt zero n item hi f)"
      if j: "j \<le> length (items n1)" and small: "length (items (children n1 ! j)) < hi"
        and lo: "0 < j \<longrightarrow> lt (items n1 ! (j - 1)) item"
        and up: "j < length (items n1) \<longrightarrow> lt item (items n1 ! j)"
        and sel: "\<not> b \<and> j = i \<or> b \<and> i < length (items n1) \<and>
           (lt item (items n1 ! i) \<and> j = i \<or> \<not> lt item (items n1 ! i) \<and> lt (items n1 ! i) item \<and> j = i + 1)"
      for j
    proof -
      let ?c = "children n1 ! j"
      have wc: "wf_node lo hi h ?c" using shaped_child [OF sh1 j] .
      then have shc: "shaped lo hi h ?c" by (simp add: wf_shaped)
      have sc: "sorted_wrt lt (inorder ?c)" using sorted_child [OF len1 j srt1] .
      from Suc.IH [OF shc small sc fl1]
      have sub: "insert_post lt zero item lo hi h ?c (node_insert lt zero ?c item hi f1)" .
      then obtain out b' c' f2 where
        r: "node_insert lt zero ?c item hi f1 = Some ((out, b'), c', f2)"
        by (auto simp: insert_post_def split: option.splits)
      from sub r have "length (items c') \<le> Suc (length (items ?c))" by (simp add: insert_post_def)
      with small have cb: "length (items c') \<le> hi" by simp
      have jc: "j < length (children n1)" using j len1 by simp
      have eq: "node_insert lt zero n item hi f
          = Some ((out, b'), Node (items n1) ((children n1)[j := c']), f2)"
        using node_insert_down [OF absent cne ms jc sel r] .
      have "insert_post lt zero item lo hi (Suc h) n1
              (Some ((out, b'), Node (items n1) ((children n1)[j := c']), f2))"
        using insert_descend [OF swo sh1 j srt1 lo up sub r cb] .
      from insert_post_same_inorder [OF this io1] il show ?thesis unfolding eq by simp
    qed
    show ?thesis
    proof (cases b)
      case False
      with nb have n1: "n1 = n" and small: "length (items (children n ! i)) < hi" by simp_all
      show ?thesis
        using down [of i] nf False small by (auto simp: n1)
    next
      case True
      with yb obtain m where its1: "items n1 = take i (items n) @ m # drop i (items n)"
        and s1: "length (items (children n1 ! i)) < hi"
        and s2: "length (items (children n1 ! Suc i)) < hi" by blast
      have i1: "i < length (items n1)" using nf(1) by (simp add: its1)
      have mi: "items n1 ! i = m" using nf(1) by (simp add: its1 nth_append)
      have below: "0 < i \<longrightarrow> items n1 ! (i - 1) = items n ! (i - 1)"
        using nf(1) by (auto simp: its1 nth_append)
      have above: "Suc i < length (items n1) \<longrightarrow> items n1 ! Suc i = items n ! i"
        using nf(1) by (auto simp: its1 nth_append)
      show ?thesis
      proof (cases "lt item m")
        case lt1: True
        show ?thesis
          using down [of i] i1 s1 nf(2) below lt1 mi True by auto
      next
        case nlt1: False
        show ?thesis
        proof (cases "lt m item")
          case lt2: True
          have "Suc i < length (items n1) \<longrightarrow> lt item (items n1 ! Suc i)"
            using above nf(1,3) its1 by auto
          then show ?thesis
            using down [of "Suc i"] i1 s2 lt2 nlt1 mi True by auto
        next
          case nlt2: False
          have eq: "node_insert lt zero n item hi f
              = Some ((items n1 ! i, True), Node ((items n1)[i := item]) (children n1), f1)"
          proof -
            have ms': "node_maybeSplitChild n i hi f = Some (True, n1, f1)" using ms True by simp
            show ?thesis using node_insert_equal [OF absent cne ms' i1] nlt1 nlt2 mi by simp
          qed
          have "insert_post lt zero item lo hi (Suc h) n1
              (Some ((items n1 ! i, True), Node ((items n1)[i := item]) (children n1), f1))"
            using insert_found [OF swo sh1 i1 srt1 fl1] nlt1 nlt2 mi by simp
          from insert_post_same_inorder [OF this io1] il show ?thesis unfolding eq by simp
        qed
      qed
    qed
  qed
qed

section \<open>Rotations and merges\<close>

lemma inorder_two_focus:
  assumes len: "length (children n) = length (items n) + 1" and k: "k < length (items n)"
  shows "inorder n = left_of n k @ inorder (children n ! k) @ items n ! k
           # inorder (children n ! Suc k) @ right_of n (Suc k)"
  using inorder_focus [OF len, of k] right_of_step [OF len k] k by simp

lemma inorder_single [simp]: "inorder (Node [] [c]) = inorder c"
  by simp

text \<open>A node rebuilt around separator \<open>k\<close>: new separator and new neighbours.\<close>

lemma inorder_rebuild:
  assumes len: "length (children n) = length (items n) + 1" and k: "k < length (items n)"
  shows "inorder (Node ((items n)[k := x]) ((children n)[k := a, Suc k := b]))
       = left_of n k @ inorder a @ x # inorder b @ right_of n (Suc k)"
proof -
  let ?n = "Node ((items n)[k := x]) ((children n)[k := a, Suc k := b])"
  have l: "length (children ?n) = length (items ?n) + 1" using len by simp
  have k': "k < length (items ?n)" using k by simp
  have "left_of ?n k = left_of n k" by (simp add: left_of_def)
  moreover have "right_of ?n (Suc k) = right_of n (Suc k)" by (simp add: right_of_def)
  moreover have "children ?n ! k = a" "children ?n ! Suc k = b" "items ?n ! k = x"
    using k len by simp_all
  ultimately show ?thesis using inorder_two_focus [OF l k'] by simp
qed

lemma shaped_rebuild:
  assumes "shaped lo hi (Suc h) n" "wf_node lo hi h a" "wf_node lo hi h b"
  shows "shaped lo hi (Suc h) (Node ((items n)[k := x]) ((children n)[k := a, Suc k := b]))"
proof -
  have "set ((children n)[k := a, Suc k := b]) \<subseteq> insert b (insert a (set (children n)))"
    using set_update_subset_insert [of "(children n)[k := a]" "Suc k" b]
      set_update_subset_insert [of "children n" k a] by auto
  with assms show ?thesis by (auto simp: shaped_Suc)
qed

lemma shaped_butlast:
  assumes "shaped lo hi h c" "items c \<noteq> []"
  shows "shaped lo hi h (Node (butlast (items c)) (butlast (children c)))"
  using assms by (cases h) (auto simp: shaped_Suc dest: in_set_butlastD)

lemma in_set_tl: "x \<in> set (tl xs) \<Longrightarrow> x \<in> set xs"
  by (cases xs) auto

lemma shaped_tl:
  assumes "shaped lo hi h c" "items c \<noteq> []"
  shows "shaped lo hi h (Node (tl (items c)) (tl (children c)))"
  using assms by (cases h) (auto simp: shaped_Suc dest: in_set_tl)

text \<open>The last item of a node and what lies on both sides of it.\<close>

lemma inorder_last_item:
  assumes sh: "shaped lo hi h c" and ne: "items c \<noteq> []"
  shows "inorder c = inorder (Node (butlast (items c)) (butlast (children c))) @ last (items c)
           # (if children c = [] then [] else inorder (last (children c)))"
proof -
  define k where "k = length (items c) - 1"
  have k: "k < length (items c)" "Suc k = length (items c)" using ne by (simp_all add: k_def)
  have b1: "take k (items c) = butlast (items c)" by (simp add: butlast_conv_take k_def)
  have lst: "items c ! k = last (items c)" using ne by (simp add: last_conv_nth k_def)
  have d1: "drop (Suc k) (items c) = []" using k by simp
  have b2: "take (Suc k) (children c) = butlast (children c)"
    using sh k by (cases h) (auto simp: shaped_Suc butlast_conv_take)
  have d2: "drop (Suc k) (children c) = (if children c = [] then [] else [last (children c)])"
  proof (cases h)
    case 0 with sh show ?thesis by simp
  next
    case (Suc h')
    with sh have l: "length (children c) = Suc (Suc k)" using k by (simp add: shaped_Suc)
    then have "children c \<noteq> []" by auto
    moreover have "drop (Suc k) (children c) = [last (children c)]"
      using l by (metis append_butlast_last_id append_eq_conv_conj calculation diff_Suc_1 length_butlast)
    ultimately show ?thesis by simp
  qed
  from inorder_item_split [OF sh k(1)] show ?thesis
    unfolding b1 b2 d1 d2 lst by (auto split: if_splits)
qed

lemma inorder_first_item:
  assumes sh: "shaped lo hi h c" and ne: "items c \<noteq> []"
  shows "inorder c = (if children c = [] then [] else inorder (hd (children c))) @ hd (items c)
           # inorder (Node (tl (items c)) (tl (children c)))"
proof -
  have k: "0 < length (items c)" using ne by simp
  have f: "items c ! 0 = hd (items c)" using ne by (simp add: hd_conv_nth)
  have t1: "take (Suc 0) (children c) = (if children c = [] then [] else [hd (children c)])"
    by (cases "children c") auto
  from inorder_item_split [OF sh k] show ?thesis
    unfolding f t1 by (auto simp: drop_Suc split: if_splits)
qed

lemma stealFromLeft_ok:
  assumes swo: "strict_weak_order lt" and sh: "shaped lo hi (Suc h) n"
    and k: "k < length (items n)" and srt: "sorted_wrt lt (inorder n)"
    and big: "lo < length (items (children n ! k))"
    and room: "length (items (children n ! Suc k)) < hi"
  shows "\<exists>n'. stealFromLeft n (Suc k) = Some n' \<and> shaped lo hi (Suc h) n'
     \<and> inorder n' = inorder n
     \<and> (\<exists>x. items n' = (items n)[k := x] \<and> lt x (items n ! k))
     \<and> length (items (children n' ! Suc k)) = Suc (length (items (children n ! Suc k)))"
proof -
  define left where "left = children n ! k"
  define child where "child = children n ! Suc k"
  define sep where "sep = items n ! k"
  define x where "x = last (items left)"
  define left' where "left' = Node (butlast (items left)) (butlast (children left))"
  define cc where "cc = (if children left = [] then children child
                         else last (children left) # children child)"
  define child' where "child' = Node (sep # items child) cc"
  define n' where "n' = Node ((items n)[k := x]) ((children n)[k := left', Suc k := child'])"
  have len: "length (children n) = length (items n) + 1" using sh by (simp add: shaped_Suc)
  have wl: "wf_node lo hi h left" and wc: "wf_node lo hi h child"
    using sh k len by (simp_all add: shaped_Suc left_def child_def)
  then have shl: "shaped lo hi h left" and shc: "shaped lo hi h child"
    and bl: "length (items left) \<le> hi" and bc: "lo \<le> length (items child)"
    by (simp_all add: wf_shaped)
  have ne: "items left \<noteq> []" using big by (auto simp: left_def)
  have run: "stealFromLeft n (Suc k) = Some n'"
    using k len ne
    by (simp add: stealFromLeft_def nth_opt_def items_pop_def items_insertAt_def
        left_def [symmetric] child_def [symmetric] sep_def [symmetric] x_def [symmetric]
        n'_def child'_def left'_def cc_def list_update_swap [of k "Suc k"])
  have big': "lo < length (items left)" using big by (simp add: left_def)
  have wl': "wf_node lo hi h left'"
    using shaped_butlast [OF shl ne] big' bl by (auto simp: wf_shaped left'_def)
  have shc': "shaped lo hi h child'"
  proof (cases h)
    case 0
    with shl shc show ?thesis by (simp add: child'_def cc_def)
  next
    case (Suc h')
    with shl have cl: "length (children left) = length (items left) + 1"
      and al: "\<forall>c \<in> set (children left). wf_node lo hi h' c" by (simp_all add: shaped_Suc)
    from cl have "children left \<noteq> []" by auto
    then have "last (children left) \<in> set (children left)" by simp
    with al shc Suc \<open>children left \<noteq> []\<close> show ?thesis
      by (simp add: child'_def cc_def shaped_Suc)
  qed
  have wc': "wf_node lo hi h child'"
    using shc' bc room by (simp add: wf_shaped child'_def child_def)
  have sh': "shaped lo hi (Suc h) n'"
    unfolding n'_def by (rule shaped_rebuild [OF sh wl' wc'])
  define post where "post = (if children left = [] then [] else inorder (last (children left)))"
  have il: "inorder left = inorder left' @ x # post"
    using inorder_last_item [OF shl ne] by (simp add: left'_def x_def post_def)
  have ic: "inorder child' = post @ sep # inorder child"
  proof (cases h)
    case 0
    with shl shc show ?thesis by (simp add: child'_def cc_def post_def)
  next
    case (Suc h')
    with shl have "children left \<noteq> []" by (auto simp: shaped_Suc)
    then show ?thesis by (cases child) (simp add: child'_def cc_def post_def)
  qed
  have io: "inorder n' = inorder n"
    unfolding n'_def inorder_rebuild [OF len k] inorder_two_focus [OF len k]
    by (simp add: il ic left_def [symmetric] child_def [symmetric] sep_def [symmetric])
  have "x \<in> set (inorder left)" by (simp add: il)
  moreover have "sorted_wrt lt (inorder left @ [sep])"
    using srt unfolding inorder_two_focus [OF len k]
    by (simp add: sorted_wrt_append left_def sep_def)
  ultimately have lx: "lt x sep" by (simp add: sorted_wrt_append)
  have "length (items (children n' ! Suc k)) = Suc (length (items child))"
    using k len by (simp add: n'_def child'_def)
  with run sh' io lx show ?thesis
    by (intro exI [of _ n']) (auto simp: n'_def sep_def child_def)
qed

lemma weave_snoc:
  "length ls = Suc (length xs) \<Longrightarrow> weave (xs @ [x]) (ls @ [l]) = weave xs ls @ x # l"
proof (induction xs arbitrary: ls)
  case Nil
  then obtain m where "ls = [m]" by (cases ls) auto
  then show ?case by simp
next
  case (Cons a xs)
  then obtain m ms where "ls = m # ms" by (cases ls) auto
  with Cons show ?case by simp
qed

lemma stealFromRight_ok:
  assumes swo: "strict_weak_order lt" and sh: "shaped lo hi (Suc h) n"
    and k: "k < length (items n)" and srt: "sorted_wrt lt (inorder n)"
    and big: "lo < length (items (children n ! Suc k))"
    and room: "length (items (children n ! k)) < hi"
  shows "\<exists>n'. stealFromRight n k = Some n' \<and> shaped lo hi (Suc h) n'
     \<and> inorder n' = inorder n
     \<and> (\<exists>x. items n' = (items n)[k := x] \<and> lt (items n ! k) x)
     \<and> length (items (children n' ! k)) = Suc (length (items (children n ! k)))"
proof -
  define right where "right = children n ! Suc k"
  define child where "child = children n ! k"
  define sep where "sep = items n ! k"
  define x where "x = items right ! 0"
  define right' where "right' = Node (tl (items right)) (tl (children right))"
  define cc where "cc = (if children right = [] then children child
                         else children child @ [children right ! 0])"
  define child' where "child' = Node (items child @ [sep]) cc"
  define n' where "n' = Node ((items n)[k := x]) ((children n)[k := child', Suc k := right'])"
  have len: "length (children n) = length (items n) + 1" using sh by (simp add: shaped_Suc)
  have wr: "wf_node lo hi h right" and wc: "wf_node lo hi h child"
    using sh k len by (simp_all add: shaped_Suc right_def child_def)
  then have shr: "shaped lo hi h right" and shc: "shaped lo hi h child"
    and br: "length (items right) \<le> hi" and bc: "lo \<le> length (items child)"
    by (simp_all add: wf_shaped)
  have ne: "items right \<noteq> []" using big by (auto simp: right_def)
  have run: "stealFromRight n k = Some n'"
    using k len ne
    by (simp add: stealFromRight_def nth_opt_def items_removeAt_def
        right_def [symmetric] child_def [symmetric] sep_def [symmetric] x_def [symmetric]
        n'_def child'_def right'_def cc_def drop_Suc)
  have xh: "x = hd (items right)" using ne by (simp add: x_def hd_conv_nth)
  have big': "lo < length (items right)" using big by (simp add: right_def)
  have wr': "wf_node lo hi h right'"
    using shaped_tl [OF shr ne] big' br by (auto simp: wf_shaped right'_def)
  have shc': "shaped lo hi h child'"
  proof (cases h)
    case 0
    with shr shc show ?thesis by (simp add: child'_def cc_def)
  next
    case (Suc h')
    with shr have cl: "length (children right) = length (items right) + 1"
      and al: "\<forall>c \<in> set (children right). wf_node lo hi h' c" by (simp_all add: shaped_Suc)
    from cl have "children right \<noteq> []" by auto
    then have "children right ! 0 \<in> set (children right)" by simp
    with al shc Suc \<open>children right \<noteq> []\<close> show ?thesis
      by (simp add: child'_def cc_def shaped_Suc)
  qed
  have wc': "wf_node lo hi h child'"
    using shc' bc room by (simp add: wf_shaped child'_def child_def)
  have sh': "shaped lo hi (Suc h) n'"
    unfolding n'_def by (rule shaped_rebuild [OF sh wc' wr'])
  define pre where "pre = (if children right = [] then [] else inorder (children right ! 0))"
  have ir: "inorder right = pre @ x # inorder right'"
    using inorder_first_item [OF shr ne] by (simp add: right'_def xh pre_def hd_conv_nth)
  have ic: "inorder child' = inorder child @ sep # pre"
  proof (cases h)
    case 0
    with shr shc show ?thesis by (simp add: child'_def cc_def pre_def)
  next
    case (Suc h')
    with shr have "children right \<noteq> []" by (auto simp: shaped_Suc)
    moreover from Suc shc have "length (children child) = Suc (length (items child))"
      by (simp add: shaped_Suc)
    ultimately show ?thesis
      by (cases child) (simp add: child'_def cc_def pre_def weave_snoc)
  qed
  have io: "inorder n' = inorder n"
    unfolding n'_def inorder_rebuild [OF len k] inorder_two_focus [OF len k]
    by (simp add: ir ic right_def [symmetric] child_def [symmetric] sep_def [symmetric])
  have "x \<in> set (inorder right)" by (simp add: ir)
  moreover have "sorted_wrt lt (sep # inorder right)"
    using srt unfolding inorder_two_focus [OF len k]
    by (simp add: sorted_wrt_append right_def sep_def)
  ultimately have lx: "lt sep x" by simp
  have "length (items (children n' ! k)) = Suc (length (items child))"
    using k len by (simp add: n'_def child'_def)
  with run sh' io lx show ?thesis
    by (intro exI [of _ n']) (auto simp: n'_def sep_def child_def)
qed

lemma mergeWithRight_ok:
  assumes sh: "shaped lo hi (Suc h) n" and k: "k < length (items n)" and fl: "fl_ok f"
    and room: "length (items (children n ! k)) + length (items (children n ! Suc k)) < hi"
  shows "\<exists>n' f'. mergeWithRight n k f = Some (n', f') \<and> shaped lo hi (Suc h) n'
     \<and> inorder n' = inorder n \<and> fl_ok f'
     \<and> items n' = take k (items n) @ drop (Suc k) (items n)
     \<and> length (items (children n' ! k))
         = length (items (children n ! k)) + length (items (children n ! Suc k)) + 1"
proof -
  define its where "its = items n"
  define cs where "cs = children n"
  define child where "child = cs ! k"
  define right where "right = cs ! Suc k"
  define sep where "sep = its ! k"
  define merged where
    "merged = Node (items child @ sep # items right) (children child @ children right)"
  define n' where
    "n' = Node (take k its @ drop (Suc k) its) (take k cs @ merged # drop (Suc (Suc k)) cs)"
  have len: "length cs = length its + 1" and all: "\<forall>c \<in> set cs. wf_node lo hi h c"
    using sh by (simp_all add: shaped_Suc its_def cs_def)
  have k': "k < length its" using k by (simp add: its_def)
  have wc: "wf_node lo hi h child" and wr: "wf_node lo hi h right"
    using all k' len by (simp_all add: child_def right_def)
  then have shc: "shaped lo hi h child" and shr: "shaped lo hi h right"
    and bc: "lo \<le> length (items child)" by (simp_all add: wf_shaped)
  have upd: "(take (Suc k) cs @ drop (Suc (Suc k)) cs)[k := merged]
      = take k cs @ merged # drop (Suc (Suc k)) cs"
    using k' len by (simp add: take_Suc_conv_app_nth list_update_append)
  have run: "mergeWithRight n k f = Some (n', freeNode f right)"
    unfolding mergeWithRight_def its_def [symmetric] cs_def [symmetric]
    using k' len
    by (simp add: nth_opt_def items_removeAt_def child_def [symmetric] right_def [symmetric]
        sep_def [symmetric] merged_def [symmetric] upd n'_def)
  have shm: "shaped lo hi h merged"
    using shc shr by (cases h) (auto simp: merged_def shaped_Suc)
  have wm: "wf_node lo hi h merged"
    using shm bc room k' by (simp add: wf_shaped merged_def child_def right_def cs_def)
  have "\<forall>c \<in> set (take k cs @ merged # drop (Suc (Suc k)) cs). wf_node lo hi h c"
    using all wm by (auto dest: in_set_takeD in_set_dropD)
  then have sh': "shaped lo hi (Suc h) n'"
    using len k' by (simp add: shaped_Suc n'_def)
  have idx: "length (items child) < length (items merged)" by (simp add: merged_def)
  have tk: "take (Suc (length (items child))) (children merged) = children child"
    "drop (Suc (length (items child))) (children merged) = children right"
    using shc shr by (cases h; simp add: merged_def shaped_Suc)+
  from inorder_item_split [OF shm idx]
  have im: "inorder merged = inorder child @ sep # inorder right"
    unfolding tk by (auto simp: merged_def)
  have l0: "length (children n) = length (items n) + 1" using len by (simp add: its_def cs_def)
  have "inorder n' = lefts (take k its) (map inorder (take k cs)) @ inorder merged
        @ rights (drop (Suc k) its) (map inorder (drop (Suc (Suc k)) cs))"
    unfolding n'_def inorder.simps map_append list.map
    using k' len by (intro weave_focus) auto
  then have io: "inorder n' = inorder n"
    unfolding inorder_two_focus [OF l0 k]
    by (simp add: im left_of_def right_of_def its_def cs_def child_def right_def sep_def)
  have "length (items (children n' ! k)) = length (items child) + length (items right) + 1"
    using k' len by (simp add: n'_def nth_append merged_def)
  with run sh' io freeNode_ok [OF fl] show ?thesis
    by (intro exI [of _ n'] exI [of _ "freeNode f right"])
       (simp add: n'_def its_def child_def right_def cs_def)
qed

lemma growChild_ok:
  assumes swo: "strict_weak_order lt" and hi: "hi = 2 * lo + 1"
    and sh: "shaped lo hi (Suc h) n" and i: "i \<le> length (items n)" and ne: "items n \<noteq> []"
    and srt: "sorted_wrt lt (inorder n)" and fl: "fl_ok f"
    and small: "length (items (children n ! i)) \<le> lo"
  shows "\<exists>n' f'. growChild n i lo f = Some (n', f') \<and> shaped lo hi (Suc h) n'
     \<and> inorder n' = inorder n \<and> fl_ok f'
     \<and> ((0 < i \<and> (\<exists>x. items n' = (items n)[i - 1 := x] \<and> lt x (items n ! (i - 1)))
            \<and> lo < length (items (children n' ! i)))
        \<or> (i < length (items n) \<and> (\<exists>x. items n' = (items n)[i := x] \<and> lt (items n ! i) x)
            \<and> lo < length (items (children n' ! i)))
        \<or> (\<exists>k. (k = i \<or> i = length (items n) \<and> Suc k = i) \<and> k < length (items n)
            \<and> items n' = take k (items n) @ drop (Suc k) (items n)
            \<and> lo < length (items (children n' ! k))))"
proof -
  have len: "length (children n) = length (items n) + 1" using sh by (simp add: shaped_Suc)
  have wfc: "\<And>j. j \<le> length (items n) \<Longrightarrow> lo \<le> length (items (children n ! j))
      \<and> length (items (children n ! j)) \<le> hi"
    using shaped_child [OF sh] by (simp add: wf_shaped)
  have ci: "length (items (children n ! i)) = lo" using wfc [OF i] small by simp
  show ?thesis
  proof (cases "0 < i \<and> lo < length (items (children n ! (i - 1)))")
    case True
    then obtain k where k: "i = Suc k" by (cases i) auto
    have kl: "k < length (items n)" using i k by simp
    have big: "lo < length (items (children n ! k))" using True k by simp
    have room: "length (items (children n ! Suc k)) < hi" using ci k hi by simp
    from stealFromLeft_ok [OF swo sh kl srt big room] obtain n' where
      s: "stealFromLeft n (Suc k) = Some n'" "shaped lo hi (Suc h) n'" "inorder n' = inorder n"
      "\<exists>x. items n' = (items n)[k := x] \<and> lt x (items n ! k)"
      "length (items (children n' ! Suc k)) = Suc (length (items (children n ! Suc k)))"
      by blast
    have run: "growChild n i lo f = Some (n', f)"
      using True kl len s(1) by (simp add: growChild_def nth_opt_def k)
    show ?thesis
      using run s fl ci by (intro exI [of _ n'] exI [of _ f]) (simp add: k)
  next
    case noleft: False
    show ?thesis
    proof (cases "i < length (items n) \<and> lo < length (items (children n ! (i + 1)))")
      case True
      then have il: "i < length (items n)" and big: "lo < length (items (children n ! Suc i))"
        by simp_all
      have room: "length (items (children n ! i)) < hi" using ci hi by simp
      from stealFromRight_ok [OF swo sh il srt big room] obtain n' where
        s: "stealFromRight n i = Some n'" "shaped lo hi (Suc h) n'" "inorder n' = inorder n"
        "\<exists>x. items n' = (items n)[i := x] \<and> lt (items n ! i) x"
        "length (items (children n' ! i)) = Suc (length (items (children n ! i)))"
        by blast
      have run: "growChild n i lo f = Some (n', f)"
        using noleft True len s(1) by (auto simp: growChild_def nth_opt_def)
      show ?thesis
        using run s fl ci il by (intro exI [of _ n'] exI [of _ f]) simp
    next
      case noright: False
      define k where "k = (if i \<ge> length (items n) then i - 1 else i)"
      have kl: "k < length (items n)" using i ne by (auto simp: k_def)
      have ki: "k = i \<or> i = length (items n) \<and> Suc k = i" using i ne by (auto simp: k_def)
      have both: "length (items (children n ! k)) = lo" "length (items (children n ! Suc k)) = lo"
      proof -
        show "length (items (children n ! k)) = lo"
        proof (cases "k = i")
          case True with ci show ?thesis by simp
        next
          case False
          with ki have "Suc k = i" by simp
          with noleft wfc [of k] kl show ?thesis by auto
        qed
        show "length (items (children n ! Suc k)) = lo"
        proof (cases "k = i")
          case True
          with noright wfc [of "Suc k"] kl show ?thesis by auto
        next
          case False
          with ki have "Suc k = i" by simp
          with ci show ?thesis by simp
        qed
      qed
      have room: "length (items (children n ! k)) + length (items (children n ! Suc k)) < hi"
        using both hi by simp
      from mergeWithRight_ok [OF sh kl fl room] obtain n' f' where
        m: "mergeWithRight n k f = Some (n', f')" "shaped lo hi (Suc h) n'"
        "inorder n' = inorder n" "fl_ok f'"
        "items n' = take k (items n) @ drop (Suc k) (items n)"
        "length (items (children n' ! k))
           = length (items (children n ! k)) + length (items (children n ! Suc k)) + 1"
        by blast
      have i0: "i \<ge> length (items n) \<Longrightarrow> i \<noteq> 0" using ne by (cases "items n") auto
      have run: "growChild n i lo f = Some (n', f')"
        using noleft noright len m(1) i i0 ne
        by (auto simp: growChild_def nth_opt_def k_def)
      have "lo < length (items (children n' ! k))" using m(6) both by simp
      with run m kl ki show ?thesis
        by (intro exI [of _ n'] exI [of _ f']) blast
    qed
  qed
qed

section \<open>Removal\<close>

lemma remove_select_internal:
  "children n \<noteq> [] \<Longrightarrow>
   remove_select lt zero n item typ = Some (Inr (remove_index lt (items n) item typ))"
  by (cases "typ") (auto simp: remove_select_def remove_index_def split: prod.splits)

lemma items_find_absentI:
  assumes swo: "strict_weak_order lt" and s: "sorted_wrt lt s" and j: "j \<le> length s"
    and lo: "0 < j \<longrightarrow> lt (s ! (j - 1)) item" and hi: "j < length s \<longrightarrow> lt item (s ! j)"
  shows "items_find lt s item = (j, False)"
proof -
  have below: "lt (s ! k) item" if "k < j" for k
  proof (cases "k = j - 1")
    case True with lo that show ?thesis by auto
  next
    case False
    with that j have "lt (s ! k) (s ! (j - 1))" using s by (simp add: sorted_wrt_iff_nth_less)
    with lo that swo show ?thesis by (auto intro: swo_trans)
  qed
  have above: "lt item (s ! k)" if "j \<le> k" "k < length s" for k
  proof (cases "k = j")
    case True with hi that show ?thesis by auto
  next
    case False
    with that have "lt (s ! j) (s ! k)" using s by (simp add: sorted_wrt_iff_nth_less)
    with hi that swo show ?thesis by (auto intro: swo_trans)
  qed
  show ?thesis
  proof (cases rule: items_find_cases [of lt s item])
    case (found i)
    note f = items_find_found [OF swo s found]
    show ?thesis
    proof (cases "i < j")
      case True with below f show ?thesis by blast
    next
      case False with above f show ?thesis by auto
    qed
  next
    case (absent i)
    note f = items_find_not_found [OF swo s absent]
    have "i = j"
    proof (rule ccontr)
      assume "i \<noteq> j"
      then consider "i < j" | "j < i" by linarith
      then show False
      proof cases
        case 1
        with below [of i] f(3) j swo show False by (auto dest: swo_asym)
      next
        case 2
        with above [of j] f(1,2) swo show False by (auto dest: swo_asym)
      qed
    qed
    with absent show ?thesis by simp
  qed
qed

lemma items_find_foundI:
  assumes swo: "strict_weak_order lt" and s: "sorted_wrt lt s" and j: "j < length s"
    and eq: "\<not> lt (s ! j) item" "\<not> lt item (s ! j)"
  shows "items_find lt s item = (j, True)"
proof (cases rule: items_find_cases [of lt s item])
  case (found i)
  note f = items_find_found [OF swo s found]
  have "i = j"
  proof (rule ccontr)
    assume "i \<noteq> j"
    then consider "i < j" | "j < i" by linarith
    then show False
    proof cases
      case 1
      then have "lt (s ! i) (s ! j)" using s j by (simp add: sorted_wrt_iff_nth_less)
      with eq(2) swo have "lt (s ! i) item" by (blast intro: swo_lt_nlt)
      with f show False by simp
    next
      case 2
      then have "lt (s ! j) (s ! i)" using s f(1) by (simp add: sorted_wrt_iff_nth_less)
      with f(3) swo have "lt (s ! j) item" by (blast intro: swo_lt_nlt)
      with eq show False by simp
    qed
  qed
  with found show ?thesis by simp
next
  case (absent i)
  note f = items_find_not_found [OF swo s absent]
  show ?thesis
  proof (cases "j < i")
    case True with f(2) eq show ?thesis by blast
  next
    case False with f(3) j eq show ?thesis by auto
  qed
qed

lemma remove_index_bound:
  assumes "strict_weak_order lt" "sorted_wrt lt its" "remove_index lt its item typ = (i, found)"
  shows "i \<le> length its" "found \<longrightarrow> typ = removeItem \<and> i < length its"
proof -
  show "i \<le> length its"
  proof (cases "typ")
    case removeItem
    with assms(3) have f: "items_find lt its item = (i, found)" by (simp add: remove_index_def)
    show ?thesis
    proof (cases found)
      case True
      with f have "items_find lt its item = (i, True)" by simp
      from items_find_found(1) [OF assms(1,2) this] show ?thesis by simp
    next
      case False
      with f have "items_find lt its item = (i, False)" by simp
      from items_find_not_found(1) [OF assms(1,2) this] show ?thesis .
    qed
  qed (use assms(3) in \<open>auto simp: remove_index_def\<close>)
  show "found \<longrightarrow> typ = removeItem \<and> i < length its"
    using assms(3) items_find_found(1) [OF assms(1,2), of item i]
    by (cases "typ") (auto simp: remove_index_def)
qed

text \<open>After the child has been grown, the same removal selects a child that can spare an
  item.\<close>

lemma select_after_grow:
  assumes swo: "strict_weak_order lt" and s: "sorted_wrt lt its" and s': "sorted_wrt lt its'"
    and ri: "remove_index lt its item typ = (i, found)"
    and grown:
      "(0 < i \<and> (\<exists>x. its' = its[i - 1 := x] \<and> lt x (its ! (i - 1))) \<and> lo < csz i)
        \<or> (i < length its \<and> (\<exists>x. its' = its[i := x] \<and> lt (its ! i) x) \<and> lo < csz i)
        \<or> (\<exists>k. (k = i \<or> i = length its \<and> Suc k = i) \<and> k < length its
            \<and> its' = take k its @ drop (Suc k) its \<and> lo < csz k)"
  shows "\<exists>j found'. remove_index lt its' item typ = (j, found') \<and> lo < csz j"
proof (cases "typ")
  case removeMin
  with ri have i0: "i = 0" by (simp add: remove_index_def)
  have "lo < csz 0" using grown i0 by auto
  then show ?thesis using removeMin
    by (intro exI [of _ 0] exI [of _ False]) (simp add: remove_index_def)
next
  case removeMax
  with ri have il: "i = length its" by (simp add: remove_index_def)
  have "lo < csz (length its')" using grown il by auto
  then show ?thesis using removeMax
    by (intro exI [of _ "length its'"] exI [of _ False]) (simp add: remove_index_def)
next
  case removeItem
  with ri have f: "items_find lt its item = (i, found)" by (simp add: remove_index_def)
  have ib: "i \<le> length its" using remove_index_bound(1) [OF swo s ri] .
  have srt: "\<And>a b. a < b \<Longrightarrow> b < length its \<Longrightarrow> lt (its ! a) (its ! b)"
    using s by (simp add: sorted_wrt_iff_nth_less)
  from grown consider
      (L) x where "0 < i" "its' = its[i - 1 := x]" "lt x (its ! (i - 1))" "lo < csz i"
    | (R) x where "i < length its" "its' = its[i := x]" "lt (its ! i) x" "lo < csz i"
    | (M) k where "k = i \<or> i = length its \<and> Suc k = i" "k < length its"
        "its' = take k its @ drop (Suc k) its" "lo < csz k"
    by blast
  note grown_cases = this
  text \<open>In every case the retried search stops at an index \<open>j\<close> whose child was grown.\<close>
  have "\<exists>j b. items_find lt its' item = (j, b) \<and> lo < csz j"
  proof (cases found)
    case False
    from f False have f0: "items_find lt its item = (i, False)" by simp
    note nf = items_find_not_found [OF swo s f0]
    show ?thesis
    proof (cases rule: grown_cases)
      case (L x)
      note a = L
      have "lt (its ! (i - 1)) item" using nf(2) a(1) by simp
      with a(3) swo have "lt x item" by (blast intro: swo_trans)
      then have "items_find lt its' item = (i, False)"
        using a(1,2) ib nf(3) by (intro items_find_absentI [OF swo s']) auto
      with a(4) show ?thesis by blast
    next
      case (R x)
      note a = R
      have "lt item (its ! i)" using nf(3) a(1) by simp
      with a(3) swo have "lt item x" by (blast intro: swo_trans)
      then have "items_find lt its' item = (i, False)"
        using a(1,2) ib nf(2) by (intro items_find_absentI [OF swo s']) auto
      with a(4) show ?thesis by blast
    next
      case (M k)
      note a = M
      have "items_find lt its' item = (k, False)"
      proof (intro items_find_absentI [OF swo s'])
        show "k \<le> length its'" using a(2,3) by simp
        show "0 < k \<longrightarrow> lt (its' ! (k - 1)) item"
          using a(1,2,3) nf(2) by (auto simp: nth_append)
        show "k < length its' \<longrightarrow> lt item (its' ! k)"
          using a(1,2,3) nf(3) by (auto simp: nth_append)
      qed
      with a(4) show ?thesis by blast
    qed
  next
    case True
    from f True have f1: "items_find lt its item = (i, True)" by simp
    note ff = items_find_found [OF swo s f1]
    have below: "0 < i \<Longrightarrow> lt (its ! (i - 1)) item"
      using srt [of "i - 1" i] ff(1,3) swo by (auto intro: swo_lt_nlt)
    have above: "Suc i < length its \<Longrightarrow> lt item (its ! Suc i)"
      using srt [of i "Suc i"] ff(2) swo by (auto intro: swo_nlt_lt)
    show ?thesis
    proof (cases rule: grown_cases)
      case (L x)
      note a = L
      have "items_find lt its' item = (i, True)"
        using a(1,2) ff by (intro items_find_foundI [OF swo s']) auto
      with a(4) show ?thesis by blast
    next
      case (R x)
      note a = R
      have "lt item x" using a(3) ff(2) swo by (blast intro: swo_nlt_lt)
      then have "items_find lt its' item = (i, False)"
        using a(1,2) below by (intro items_find_absentI [OF swo s']) auto
      with a(4) show ?thesis by blast
    next
      case (M k)
      note a = M
      have ki: "k = i" using a(1) ff(1) by auto
      have "items_find lt its' item = (k, False)"
      proof (intro items_find_absentI [OF swo s'])
        show "k \<le> length its'" using a(2,3) by simp
        show "0 < k \<longrightarrow> lt (its' ! (k - 1)) item"
          using a(2,3) below ki by (auto simp: nth_append)
        show "k < length its' \<longrightarrow> lt item (its' ! k)"
          using a(2,3) above ki by (auto simp: nth_append)
      qed
      with a(4) show ?thesis by blast
    qed
  qed
  then show ?thesis using removeItem by (simp add: remove_index_def)
qed

lemma find_append:
  "List.find P (xs @ ys) = (case List.find P xs of None \<Rightarrow> List.find P ys | Some y \<Rightarrow> Some y)"
  by (induction xs) auto

lemma find_none: "\<forall>y \<in> set xs. \<not> P y \<Longrightarrow> List.find P xs = None"
  by (simp add: find_None_iff)

lemma find_mid:
  assumes "\<forall>y \<in> set L. \<not> P y" "\<forall>y \<in> set R. \<not> P y"
  shows "List.find P (L @ C @ R) = List.find P C"
  using assms by (simp add: find_append find_none split: option.splits)

lemma find_hit:
  assumes "\<forall>y \<in> set L. \<not> P y" "P a"
  shows "List.find P (L @ a # R) = Some a"
  using assms by (simp add: find_append find_none)

lemma node_remove_leaf:
  assumes "remove_select lt zero n item typ = Some (Inl (r, n'))"
  shows "node_remove lt zero n item lo typ f = Some (r, n', f)"
  using assms by (subst node_remove.simps) simp

lemma node_remove_grow:
  assumes "children n \<noteq> []" "remove_index lt (items n) item typ = (i, found)"
    and "i < length (children n)" "length (items (children n ! i)) \<le> lo"
    and "growChild n i lo f = Some (n', f')"
  shows "node_remove lt zero n item lo typ f = node_remove lt zero n' item lo typ f'"
  using assms
  by (subst node_remove.simps) (simp add: remove_select_internal nth_opt_def)

lemma node_remove_found:
  assumes "children n \<noteq> []" "remove_index lt (items n) item typ = (i, True)"
    and "i < length (children n)" "lo < length (items (children n ! i))"
    and "i < length (items n)"
    and "node_remove lt zero (children n ! i) zero lo removeMax f = Some ((pred, b), c', f')"
  shows "node_remove lt zero n item lo typ f
       = Some ((items n ! i, True), Node ((items n)[i := pred]) ((children n)[i := c']), f')"
  using assms
  by (subst node_remove.simps) (simp add: remove_select_internal nth_opt_def)

lemma node_remove_down:
  assumes "children n \<noteq> []" "remove_index lt (items n) item typ = (i, False)"
    and "i < length (children n)" "lo < length (items (children n ! i))"
    and "node_remove lt zero (children n ! i) item lo typ f = Some (r, c', f')"
  shows "node_remove lt zero n item lo typ f
       = Some (r, Node (items n) ((children n)[i := c']), f')"
  using assms
  by (subst node_remove.simps) (simp add: remove_select_internal nth_opt_def)

lemma remove_leaf:
  assumes swo: "strict_weak_order lt" and sh: "shaped lo hi 0 n"
    and srt: "sorted_wrt lt (inorder n)" and fl: "fl_ok f"
    and ne: "typ \<noteq> removeItem \<longrightarrow> items n \<noteq> []"
  shows "remove_post lt zero item typ lo hi 0 n (node_remove lt zero n item lo typ f)"
proof -
  have cs: "children n = []" using sh by simp
  then have io: "inorder n = items n" by simp
  have s: "sorted_wrt lt (items n)" using srt io by simp
  show ?thesis
  proof (cases "typ")
    case removeMax
    with ne have "remove_select lt zero n item typ
        = Some (Inl ((last (items n), True), Node (butlast (items n)) (children n)))"
      by (simp add: remove_select_def cs items_pop_def)
    from node_remove_leaf [OF this] show ?thesis
      using fl ne removeMax
      by (simp add: remove_post_def cs removed_def remove_result_def)
  next
    case removeMin
    with ne have "remove_select lt zero n item typ
        = Some (Inl ((hd (items n), True), Node (tl (items n)) (children n)))"
      by (simp add: remove_select_def cs items_removeAt_def hd_conv_nth drop_Suc)
    from node_remove_leaf [OF this] show ?thesis
      using fl ne removeMin
      by (simp add: remove_post_def cs removed_def remove_result_def)
  next
    case removeItem
    show ?thesis
    proof (cases rule: items_find_cases [of lt "items n" item])
      case (found i)
      note ff = items_find_found [OF swo s found]
      have sel: "remove_select lt zero n item typ
          = Some (Inl ((items n ! i, True), Node (take i (items n) @ drop (Suc i) (items n)) (children n)))"
        using removeItem found ff(1) by (simp add: remove_select_def cs items_removeAt_def)
      have dec: "items n = take i (items n) @ items n ! i # drop (Suc i) (items n)"
        using ff(1) by (simp add: id_take_nth_drop [symmetric])
      have "\<forall>y \<in> set (take i (items n)). lt y (items n ! i)"
        using s ff(1) by (subst (asm) dec) (simp add: sorted_wrt_append)
      then have below: "\<forall>y \<in> set (take i (items n)). lt y item"
        using ff(3) swo by (blast intro: swo_lt_nlt)
      have d: "del_list lt item (items n) = take i (items n) @ drop (Suc i) (items n)"
        by (subst dec) (rule del_list_hit [OF swo below ff(2,3)])
      have "\<forall>y \<in> set (take i (items n)). \<not> equiv_items lt y item"
        using below by (simp add: equiv_items_def)
      moreover have "equiv_items lt (items n ! i) item" using ff by (simp add: equiv_items_def)
      ultimately have fd: "List.find (\<lambda>y. equiv_items lt y item) (items n) = Some (items n ! i)"
        by (subst dec) (rule find_hit)
      from node_remove_leaf [OF sel] show ?thesis
        using fl removeItem ff(1)
        by (simp add: remove_post_def cs removed_def remove_result_def d fd)
    next
      case (absent i)
      have sel: "remove_select lt zero n item typ = Some (Inl ((zero, False), n))"
        using removeItem absent by (simp add: remove_select_def cs)
      note no = items_find_no_equiv [OF swo s absent]
      then have fd: "List.find (\<lambda>y. equiv_items lt y item) (items n) = None"
        by (simp add: find_None_iff)
      from node_remove_leaf [OF sel] show ?thesis
        using fl removeItem sh del_list_absent [OF no]
        by (simp add: remove_post_def io removed_def remove_result_def fd)
    qed
  qed
qed

lemma inorder_nonempty: "items n \<noteq> [] \<Longrightarrow> inorder n \<noteq> []"
  using set_items_inorder [of n] by (cases "items n") auto

lemma remove_step:
  assumes swo: "strict_weak_order lt" and sh: "shaped lo hi (Suc h) n"
    and srt: "sorted_wrt lt (inorder n)" and fl: "fl_ok f"
    and ri: "remove_index lt (items n) item typ = (i, found)"
    and big: "lo < length (items (children n ! i))"
    and IH: "\<And>c typ' item' f'. shaped lo hi h c \<Longrightarrow> sorted_wrt lt (inorder c) \<Longrightarrow> fl_ok f'
        \<Longrightarrow> items c \<noteq> []
        \<Longrightarrow> remove_post lt zero item' typ' lo hi h c (node_remove lt zero c item' lo typ' f')"
  shows "\<exists>r n' f'. node_remove lt zero n item lo typ f = Some (r, n', f')
     \<and> length (items n') = length (items n)
     \<and> remove_post lt zero item typ lo hi (Suc h) n (Some (r, n', f'))"
proof -
  define c where "c = children n ! i"
  have len: "length (children n) = length (items n) + 1" using sh by (simp add: shaped_Suc)
  have cne: "children n \<noteq> []" using len by auto
  have si: "sorted_wrt lt (items n)" using srt by (rule sorted_items)
  note rb = remove_index_bound [OF swo si ri]
  have ic: "i < length (children n)" using rb(1) len by simp
  have wc: "wf_node lo hi h c" using shaped_child [OF sh rb(1)] by (simp add: c_def)
  then have shc: "shaped lo hi h c" and cb: "length (items c) \<le> hi" by (simp_all add: wf_shaped)
  have sc: "sorted_wrt lt (inorder c)" using sorted_child [OF len rb(1) srt] by (simp add: c_def)
  have big': "lo < length (items c)" using big by (simp add: c_def)
  then have ine: "items c \<noteq> []" by auto
  then have ione: "inorder c \<noteq> []" by (rule inorder_nonempty)
  have sub: "\<exists>r c' f'. node_remove lt zero c item' lo typ' f = Some (r, c', f')
      \<and> wf_node lo hi h c' \<and> fl_ok f' \<and> inorder c' = removed lt typ' item' (inorder c)
      \<and> r = remove_result lt zero typ' item' (inorder c)" for typ' item'
  proof -
    from IH [OF shc sc fl ine, of item' typ'] obtain r c' f' where
      r: "node_remove lt zero c item' lo typ' f = Some (r, c', f')"
      by (auto simp: remove_post_def split: option.splits)
    with IH [OF shc sc fl ine, of item' typ']
    have p: "shaped lo hi h c'" "length (items c') \<le> length (items c)"
      "length (items c) \<le> Suc (length (items c'))" "fl_ok f'"
      "inorder c' = removed lt typ' item' (inorder c)"
      "r = remove_result lt zero typ' item' (inorder c)"
      by (simp_all add: remove_post_def)
    have "wf_node lo hi h c'" using p(1,2,3) big' cb by (simp add: wf_shaped)
    with r p show ?thesis by blast
  qed
  show ?thesis
  proof (cases found)
    case True
    with rb(2) have ty: "typ = removeItem" and il: "i < length (items n)" by simp_all
    from ri True ty have f1: "items_find lt (items n) item = (i, True)"
      by (simp add: remove_index_def)
    note ff = items_find_found [OF swo si f1]
    from sub [of zero removeMax] obtain r c' f' where
      r: "node_remove lt zero c zero lo removeMax f = Some (r, c', f')"
      and wc': "wf_node lo hi h c'" and fl': "fl_ok f'"
      and ioc: "inorder c' = butlast (inorder c)" and rr: "r = (last (inorder c), True)"
      by (auto simp: removed_def remove_result_def)
    define pred where "pred = last (inorder c)"
    define n' where "n' = Node ((items n)[i := pred]) ((children n)[i := c'])"
    have ri1: "remove_index lt (items n) item typ = (i, True)" using ri True by simp
    have r1: "node_remove lt zero (children n ! i) zero lo removeMax f = Some ((pred, True), c', f')"
      using r rr by (simp add: c_def pred_def)
    have eq: "node_remove lt zero n item lo typ f = Some ((items n ! i, True), n', f')"
      using node_remove_found [OF cne ri1 ic big il r1] by (simp add: n'_def)
    have same: "(children n)[i := c', Suc i := children n ! Suc i] = (children n)[i := c']"
      using il len by (simp add: list_update_same_conv)
    have sh': "shaped lo hi (Suc h) n'"
      using shaped_items_update [OF shaped_update [OF sh wc'], of i i pred] by (simp add: n'_def)
    have io': "inorder n' = left_of n i @ inorder c' @ pred # inorder (children n ! Suc i)
          @ right_of n (Suc i)"
      using inorder_rebuild [OF len il, of pred c' "children n ! Suc i"]
      by (simp add: same n'_def)
    have io: "inorder n = (left_of n i @ inorder c) @ items n ! i
          # inorder (children n ! Suc i) @ right_of n (Suc i)"
      using inorder_two_focus [OF len il] by (simp add: c_def)
    have "\<forall>y \<in> set (left_of n i @ inorder c). lt y (items n ! i)"
      using srt unfolding io by (auto simp: sorted_wrt_append)
    then have below: "\<forall>y \<in> set (left_of n i @ inorder c). lt y item"
      using ff(3) swo by (blast intro: swo_lt_nlt)
    have d: "del_list lt item (inorder n)
        = (left_of n i @ inorder c) @ inorder (children n ! Suc i) @ right_of n (Suc i)"
      unfolding io by (rule del_list_hit [OF swo below ff(2,3)])
    have "\<forall>y \<in> set (left_of n i @ inorder c). \<not> equiv_items lt y item"
      using below by (simp add: equiv_items_def)
    moreover have "equiv_items lt (items n ! i) item" using ff by (simp add: equiv_items_def)
    ultimately have fd: "List.find (\<lambda>y. equiv_items lt y item) (inorder n) = Some (items n ! i)"
      unfolding io by (rule find_hit)
    have "inorder n' = removed lt typ item (inorder n)"
      using ione by (simp add: io' d ty removed_def ioc pred_def)
    moreover have "(items n ! i, True) = remove_result lt zero typ item (inorder n)"
      by (simp add: remove_result_def ty fd)
    ultimately have "remove_post lt zero item typ lo hi (Suc h) n (Some ((items n ! i, True), n', f'))"
      using sh' fl' by (simp add: remove_post_def n'_def)
    with eq show ?thesis by (simp add: n'_def)
  next
    case False
    from sub [of item "typ"] obtain r c' f' where
      r: "node_remove lt zero c item lo typ f = Some (r, c', f')"
      and wc': "wf_node lo hi h c'" and fl': "fl_ok f'"
      and ioc: "inorder c' = removed lt typ item (inorder c)"
      and rr: "r = remove_result lt zero typ item (inorder c)"
      by blast
    define n' where "n' = Node (items n) ((children n)[i := c'])"
    have ri0: "remove_index lt (items n) item typ = (i, False)" using ri False by simp
    have r0: "node_remove lt zero (children n ! i) item lo typ f = Some (r, c', f')"
      using r by (simp add: c_def)
    have eq: "node_remove lt zero n item lo typ f = Some (r, n', f')"
      using node_remove_down [OF cne ri0 ic big r0] by (simp add: n'_def)
    have sh': "shaped lo hi (Suc h) n'"
      unfolding n'_def by (rule shaped_update [OF sh wc'])
    have len': "length (children n') = length (items n') + 1" using len by (simp add: n'_def)
    have i': "i \<le> length (items n')" using rb(1) by (simp add: n'_def)
    have "left_of n' i = left_of n i" "right_of n' i = right_of n i" "children n' ! i = c'"
      using ic by (simp_all add: left_of_def right_of_def n'_def)
    with inorder_focus [OF len' i'] have io': "inorder n' = left_of n i @ inorder c' @ right_of n i"
      by simp
    have io: "inorder n = left_of n i @ inorder c @ right_of n i"
      using inorder_focus [OF len rb(1)] by (simp add: c_def)
    have "inorder n' = removed lt typ item (inorder n)
        \<and> r = remove_result lt zero typ item (inorder n)"
    proof (cases "typ")
      case removeMin
      with ri have "i = 0" by (simp add: remove_index_def)
      then have "left_of n i = []" by simp
      with ione show ?thesis by (simp add: io io' ioc rr removeMin removed_def remove_result_def)
    next
      case removeMax
      with ri have "i = length (items n)" by (simp add: remove_index_def)
      then have "right_of n i = []" by simp
      with ione show ?thesis
        by (simp add: io io' ioc rr removeMax removed_def remove_result_def butlast_append)
    next
      case removeItem
      with ri0 have f0: "items_find lt (items n) item = (i, False)" by (simp add: remove_index_def)
      note nf = items_find_not_found [OF swo si f0]
      have lo': "0 < i \<longrightarrow> lt (items n ! (i - 1)) item" using nf(2) by simp
      have hi': "i < length (items n) \<longrightarrow> lt item (items n ! i)" using nf(3) by simp
      note sides = sorted_sides [OF swo len rb(1) srt lo' hi']
      have nl: "\<forall>y \<in> set (left_of n i). \<not> equiv_items lt y item"
        using sides(1) by (auto simp: equiv_items_def)
      have nr: "\<forall>y \<in> set (right_of n i). \<not> equiv_items lt y item"
        using sides(2) by (auto simp: equiv_items_def)
      show ?thesis
        unfolding io io' ioc rr
        by (simp add: removeItem removed_def remove_result_def del_list_mid [OF swo sides]
            find_mid [OF nl nr])
    qed
    then have "remove_post lt zero item typ lo hi (Suc h) n (Some (r, n', f'))"
      using sh' fl' by (simp add: remove_post_def n'_def)
    with eq show ?thesis by (simp add: n'_def)
  qed
qed

lemma remove_post_same_inorder:
  assumes "remove_post lt zero item typ lo hi h n1 (Some (r, n', f'))"
    and "inorder n1 = inorder n" "length (items n') \<le> length (items n)"
    "length (items n) \<le> Suc (length (items n'))"
  shows "remove_post lt zero item typ lo hi h n (Some (r, n', f'))"
  using assms by (simp add: remove_post_def)

lemma node_remove_ok:
  assumes swo: "strict_weak_order lt" and hi: "hi = 2 * lo + 1"
  shows "shaped lo hi h n \<Longrightarrow> sorted_wrt lt (inorder n) \<Longrightarrow> fl_ok f
     \<Longrightarrow> items n \<noteq> [] \<or> (0 < h \<and> lo < length (items (children n ! 0)))
     \<Longrightarrow> remove_post lt zero item typ lo hi h n (node_remove lt zero n item lo typ f)"
proof (induction h arbitrary: n f item "typ")
  case 0
  then have "typ \<noteq> removeItem \<longrightarrow> items n \<noteq> []" by simp
  from remove_leaf [OF swo "0.prems"(1,2,3) this] show ?case .
next
  case (Suc h)
  note sh = Suc.prems(1) and srt = Suc.prems(2) and fl = Suc.prems(3) and pre = Suc.prems(4)
  have IH: "remove_post lt zero item' typ' lo hi h c (node_remove lt zero c item' lo typ' f')"
    if "shaped lo hi h c" "sorted_wrt lt (inorder c)" "fl_ok f'" "items c \<noteq> []"
    for c typ' item' f'
    using Suc.IH [OF that(1,2,3)] that(4) by simp
  have len: "length (children n) = length (items n) + 1" using sh by (simp add: shaped_Suc)
  have cne: "children n \<noteq> []" using len by auto
  have si: "sorted_wrt lt (items n)" using srt by (rule sorted_items)
  obtain i found where ri: "remove_index lt (items n) item typ = (i, found)"
    by (cases "remove_index lt (items n) item typ")
  note rb = remove_index_bound [OF swo si ri]
  show ?case
  proof (cases "lo < length (items (children n ! i))")
    case True
    from remove_step [OF swo sh srt fl ri True IH] show ?thesis by auto
  next
    case False
    then have small: "length (items (children n ! i)) \<le> lo" by simp
    have ne: "items n \<noteq> []"
    proof
      assume e: "items n = []"
      with rb(1) have "i = 0" by simp
      with pre e False show False by simp
    qed
    from growChild_ok [OF swo hi sh rb(1) ne srt fl small] obtain n' f' where
      g: "growChild n i lo f = Some (n', f')" and sh': "shaped lo hi (Suc h) n'"
      and io: "inorder n' = inorder n" and fl': "fl_ok f'"
      and grown:
        "(0 < i \<and> (\<exists>x. items n' = (items n)[i - 1 := x] \<and> lt x (items n ! (i - 1)))
            \<and> lo < length (items (children n' ! i)))
        \<or> (i < length (items n) \<and> (\<exists>x. items n' = (items n)[i := x] \<and> lt (items n ! i) x)
            \<and> lo < length (items (children n' ! i)))
        \<or> (\<exists>k. (k = i \<or> i = length (items n) \<and> Suc k = i) \<and> k < length (items n)
            \<and> items n' = take k (items n) @ drop (Suc k) (items n)
            \<and> lo < length (items (children n' ! k)))"
      by blast
    have ic: "i < length (children n)" using rb(1) len by simp
    have eq: "node_remove lt zero n item lo typ f = node_remove lt zero n' item lo typ f'"
      using node_remove_grow [OF cne ri ic small g] .
    have srt': "sorted_wrt lt (inorder n')" using srt io by simp
    have si': "sorted_wrt lt (items n')" using srt' by (rule sorted_items)
    from select_after_grow [OF swo si si' ri, of lo "\<lambda>j. length (items (children n' ! j))"] grown
    obtain j found' where rj: "remove_index lt (items n') item typ = (j, found')"
      and bigj: "lo < length (items (children n' ! j))" by blast
    from remove_step [OF swo sh' srt' fl' rj bigj IH] obtain r n'' f'' where
      res: "node_remove lt zero n' item lo typ f' = Some (r, n'', f'')"
      and ln: "length (items n'') = length (items n')"
      and post: "remove_post lt zero item typ lo hi (Suc h) n' (Some (r, n'', f''))" by blast
    have l: "length (items n') \<le> length (items n)" "length (items n) \<le> Suc (length (items n'))"
      using grown by auto
    from remove_post_same_inorder [OF post io] l ln show ?thesis
      unfolding eq res by simp
  qed
qed

section \<open>The tree invariant\<close>

lemma degree_bounds:
  assumes "2 \<le> degree t"
  shows "max_items t = 2 * minItems t + 1" "1 \<le> minItems t" "max_items t div 2 = minItems t"
  using assms by (auto simp: max_items_def minItems_def)

text \<open>\<^verbatim>\<open>maxItems\<close> is \<open>2 * degree - 1\<close> up to the degree \<open>2 ^ 62\<close>, and negative above it.\<close>

lemma maxItems_small:
  assumes "2 \<le> degree t" "int (degree t) \<le> 2 ^ 62"
  shows "maxItems t = int (max_items t)"
proof -
  define d where "d = int (degree t)"
  have d: "2 \<le> d" "d \<le> 2 ^ 62" using assms by (simp_all add: d_def)
  have m: "int (max_items t) = d * 2 - 1" using assms(1) by (simp add: max_items_def d_def)
  have "wrap_int (wrap_int (d * 2) - 1) = d * 2 - 1"
  proof (cases "d = 2 ^ 62")
    case True
    then show ?thesis by (simp add: wrap_int_def)
  next
    case False
    with d have lt: "d * 2 < 2 ^ 63" by simp
    have 1: "wrap_int (d * 2) = d * 2" using d lt by (simp add: wrap_int_def)
    have "(d * 2 - 1 + 2 ^ 63) mod 2 ^ 64 = d * 2 - 1 + 2 ^ 63"
      using d lt by (intro mod_pos_pos_trivial) simp_all
    then show ?thesis unfolding 1 by (simp add: wrap_int_def)
  qed
  then show ?thesis by (simp add: maxItems_def m d_def)
qed

lemma maxItems_big:
  assumes "\<not> int (degree t) \<le> 2 ^ 62" "int (degree t) \<le> int_max"
  shows "maxItems t < 0"
proof -
  define d where "d = int (degree t)"
  have d: "2 ^ 62 < d" "d < 2 ^ 63" using assms by (simp_all add: d_def int_max_def)
  have "(d * 2 + 2 ^ 63) mod 2 ^ 64 = d * 2 + 2 ^ 63 - 2 ^ 64"
  proof -
    have "(d * 2 + 2 ^ 63) mod 2 ^ 64 = (d * 2 + 2 ^ 63 - 2 ^ 64) mod 2 ^ 64"
      by (metis minus_mod_self2)
    also have "\<dots> = d * 2 + 2 ^ 63 - 2 ^ 64"
      using d by (intro mod_pos_pos_trivial) simp_all
    finally show ?thesis .
  qed
  then have 1: "wrap_int (d * 2) = d * 2 - 2 ^ 64" by (simp add: wrap_int_def)
  have "(d * 2 - 2 ^ 64 - 1 + 2 ^ 63) mod 2 ^ 64 = d * 2 - 2 ^ 64 - 1 + 2 ^ 63"
    using d by (intro mod_pos_pos_trivial) simp_all
  then have "wrap_int (d * 2 - 2 ^ 64 - 1) = d * 2 - 2 ^ 64 - 1" by (simp add: wrap_int_def)
  with 1 d show ?thesis by (simp add: maxItems_def d_def [symmetric])
qed

lemma go_quot_nat [simp]: "go_quot (int m) 2 = int (m div 2)"
  by (cases "m = 0") (simp_all add: go_quot_def zdiv_int)

lemma at_index_nat [simp]: "at_index (int k) = Some k"
  by (simp add: at_index_def)

text \<open>Up to the degree \<open>2 ^ 62\<close>, \<^verbatim>\<open>ReplaceOrInsert\<close> computes with the number \<open>2 * degree - 1\<close>.\<close>

lemma ReplaceOrInsert_small:
  assumes "2 \<le> degree t" "int (degree t) \<le> 2 ^ 62"
  shows "ReplaceOrInsert lt zero t item =
     (case root t of
        None \<Rightarrow>
          (case newNode (t_freelist t) of (r, f) \<Rightarrow>
             Some ((zero, False),
                   t\<lparr>root := Some (Node (items r @ [item]) (children r)),
                     t_freelist := f, t_length := t_length t + 1\<rparr>))
      | Some r \<Rightarrow> do {
          (r1, f1) \<leftarrow>
            (if length (items r) \<ge> max_items t then do {
               (item2, oldroot, second, f') \<leftarrow> node_split r (max_items t div 2) (t_freelist t);
               case newNode f' of (nr, f'') \<Rightarrow>
                 Some (Node (items nr @ [item2]) (children nr @ [oldroot, second]), f'')
             } else Some (r, t_freelist t));
          ((out, outb), r2, f2) \<leftarrow> node_insert lt zero r1 item (max_items t) f1;
          Some ((out, outb),
                t\<lparr>root := Some r2, t_freelist := f2,
                  t_length := (if \<not> outb then t_length t + 1 else t_length t)\<rparr>)
        })"
  unfolding ReplaceOrInsert_def maxItems_small [OF assms] by (cases "root t") simp_all

text \<open>Above it, \<^verbatim>\<open>ReplaceOrInsert\<close> on a tree with a root panics: the root is split at a
  negative index.\<close>

lemma ReplaceOrInsert_big:
  assumes "\<not> int (degree t) \<le> 2 ^ 62" "int (degree t) \<le> int_max" "root t = Some r"
  shows "ReplaceOrInsert lt zero t item = None"
proof -
  note m = maxItems_big [OF assms(1,2)]
  then have "go_quot (maxItems t) 2 < 0"
  proof -
    from m have "\<bar>maxItems t\<bar> \<ge> 2 \<or> maxItems t = -1" by arith
    moreover have "maxItems t \<noteq> -1"
    proof
      assume e: "maxItems t = -1"
      define d where "d = int (degree t)"
      have d: "2 ^ 62 < d" "d < 2 ^ 63" using assms by (simp_all add: d_def int_max_def)
      have "(d * 2 + 2 ^ 63) mod 2 ^ 64 = (d * 2 + 2 ^ 63 - 2 ^ 64) mod 2 ^ 64"
        by (metis minus_mod_self2)
      also have "\<dots> = d * 2 + 2 ^ 63 - 2 ^ 64"
        using d by (intro mod_pos_pos_trivial) simp_all
      finally have 1: "wrap_int (d * 2) = d * 2 - 2 ^ 64" by (simp add: wrap_int_def)
      have "(d * 2 - 2 ^ 64 - 1 + 2 ^ 63) mod 2 ^ 64 = d * 2 - 2 ^ 64 - 1 + 2 ^ 63"
        using d by (intro mod_pos_pos_trivial) simp_all
      then have "wrap_int (d * 2 - 2 ^ 64 - 1) = d * 2 - 2 ^ 64 - 1" by (simp add: wrap_int_def)
      with 1 e d show False by (simp add: maxItems_def d_def [symmetric])
    qed
    ultimately have a: "\<bar>maxItems t\<bar> \<ge> 2" by simp
    then have "\<bar>maxItems t\<bar> div 2 \<ge> 1" by simp
    with m show ?thesis by (simp add: go_quot_def sgn_if)
  qed
  then have "at_index (go_quot (maxItems t) 2) = None" by (simp add: at_index_def)
  moreover have "int (length (items r)) \<ge> maxItems t" using m by simp
  ultimately show ?thesis by (simp add: ReplaceOrInsert_def assms(3))
qed

lemma tree_inv_New:
  assumes "2 \<le> deg" "deg \<le> int_max"
  shows "\<exists>t. New deg = Some t \<and> tree_inv lt t \<and> degree t = nat deg \<and> contents t = []"
  using assms
  by (simp add: New_def NewWithFreeList_def NewFreeList_def tree_inv_def fl_ok_def contents_def)

lemma New_Some:
  "New deg = Some t \<Longrightarrow> 2 \<le> deg \<and> deg \<le> int_max"
  by (simp add: New_def NewWithFreeList_def split: if_splits)

lemma shaped_root_split:
  assumes sh: "shaped lo hi h r" and full: "length (items r) = hi" and hi: "hi = 2 * lo + 1"
  shows "shaped lo hi (Suc h)
           (Node [items r ! lo] [Node (take lo (items r)) (take (Suc lo) (children r)),
                                Node (drop (Suc lo) (items r)) (drop (Suc lo) (children r))])"
    and "inorder (Node [items r ! lo] [Node (take lo (items r)) (take (Suc lo) (children r)),
                                Node (drop (Suc lo) (items r)) (drop (Suc lo) (children r))])
         = inorder r"
proof -
  have lo: "lo < length (items r)" using full hi by simp
  have "wf_node lo hi h (Node (take lo (items r)) (take (Suc lo) (children r)))"
    using shaped_split_left [OF sh lo] lo hi by (simp add: wf_shaped)
  moreover have "wf_node lo hi h (Node (drop (Suc lo) (items r)) (drop (Suc lo) (children r)))"
    using shaped_split_right [OF sh lo] full hi by (simp add: wf_shaped)
  ultimately show "shaped lo hi (Suc h)
           (Node [items r ! lo] [Node (take lo (items r)) (take (Suc lo) (children r)),
                                Node (drop (Suc lo) (items r)) (drop (Suc lo) (children r))])"
    by (simp add: shaped_Suc)
  from inorder_item_split [OF sh lo] show "inorder (Node [items r ! lo] [Node (take lo (items r)) (take (Suc lo) (children r)),
                                Node (drop (Suc lo) (items r)) (drop (Suc lo) (children r))])
         = inorder r"
    by auto
qed

lemma ReplaceOrInsert_ok:
  assumes swo: "strict_weak_order lt" and inv: "tree_inv lt t"
    and small: "int (degree t) \<le> 2 ^ 62"
  shows "\<exists>out b t'. ReplaceOrInsert lt zero t item = Some ((out, b), t') \<and> tree_inv lt t'
     \<and> degree t' = degree t
     \<and> contents t' = ins_list lt item (contents t)
     \<and> (b \<longleftrightarrow> (\<exists>y \<in> set (contents t). equiv_items lt y item))
     \<and> (b \<longrightarrow> out \<in> set (contents t) \<and> equiv_items lt out item)
     \<and> (\<not> b \<longrightarrow> out = zero)
     \<and> t_length t' = (if b then t_length t else t_length t + 1)"
proof -
  define lo where "lo = minItems t"
  define hi where "hi = max_items t"
  have deg: "2 \<le> degree t" and dm: "int (degree t) \<le> int_max" and fl: "fl_ok (t_freelist t)"
    and tl: "t_length t = int (length (contents t))" using inv by (simp_all add: tree_inv_def)
  note db = degree_bounds [OF deg, folded lo_def hi_def]
  note unwrapped = ReplaceOrInsert_small [OF deg small]
  show ?thesis
  proof (cases "root t")
    case None
    obtain nx f' where nf: "newNode (t_freelist t) = (nx, f')" by (cases "newNode (t_freelist t)")
    with newNode_ok [OF fl] have nx: "nx = Node [] []" and fl': "fl_ok f'" by simp_all
    define t' where "t' = t\<lparr>root := Some (Node [item] []), t_freelist := f', t_length := t_length t + 1\<rparr>"
    have run: "ReplaceOrInsert lt zero t item = Some ((zero, False), t')"
      by (simp add: unwrapped None nf nx t'_def)
    have "shaped (minItems t') (max_items t') 0 (Node [item] [])" by simp
    then have "\<exists>h. shaped (minItems t') (max_items t') h (Node [item] [])" ..
    moreover have "length [item] \<le> max_items t'" using deg by (simp add: max_items_def t'_def)
    ultimately have "tree_inv lt t'"
      using deg dm fl' tl None by (simp add: tree_inv_def t'_def contents_def)
    with run None tl show ?thesis
      by (intro exI [of _ zero] exI [of _ False] exI [of _ t'])
         (simp add: contents_def t'_def)
  next
    case (Some r)
    with inv obtain h where sh: "shaped lo hi h r" and rb: "length (items r) \<le> hi"
      and re: "items r = [] \<longrightarrow> children r = []" and srt: "sorted_wrt lt (inorder r)"
      by (auto simp: tree_inv_def lo_def hi_def)
    have co: "contents t = inorder r" using Some by (simp add: contents_def)
    text \<open>The root that \<^verbatim>\<open>insert\<close> is called on, after the split of a full root.\<close>
    have "\<exists>r1 f1 h1. (if length (items r) \<ge> max_items t then do {
               (item2, oldroot, second, f') \<leftarrow> node_split r (max_items t div 2) (t_freelist t);
               case newNode f' of (nr, f'') \<Rightarrow>
                 Some (Node (items nr @ [item2]) (children nr @ [oldroot, second]), f'')
             } else Some (r, t_freelist t)) = Some (r1, f1)
        \<and> shaped lo hi h1 r1 \<and> length (items r1) < hi \<and> inorder r1 = inorder r \<and> fl_ok f1
        \<and> (items r1 = [] \<longrightarrow> children r1 = [])"
    proof (cases "length (items r) \<ge> max_items t")
      case False
      with sh srt fl re show ?thesis
        by (intro exI [of _ r] exI [of _ "t_freelist t"] exI [of _ h]) (simp add: hi_def)
    next
      case True
      with rb have full: "length (items r) = hi" by (simp add: hi_def)
      have lo: "lo < length (items r)" using full db by simp
      define f' where "f' = snd (newNode (t_freelist t))"
      define f'' where "f'' = snd (newNode f')"
      have fl': "fl_ok f'" using newNode_ok(2) [OF fl] by (simp add: f'_def)
      have n2: "newNode f' = (Node [] [], f'')"
        using newNode_ok(1) [OF fl'] by (cases "newNode f'") (simp add: f''_def)
      have fl'': "fl_ok f''" using newNode_ok(2) [OF fl'] by (simp add: f''_def)
      define r1 where "r1 = Node [items r ! lo] [Node (take lo (items r)) (take (Suc lo) (children r)),
                                Node (drop (Suc lo) (items r)) (drop (Suc lo) (children r))]"
      have "node_split r (max_items t div 2) (t_freelist t)
          = Some (items r ! lo, Node (take lo (items r)) (take (Suc lo) (children r)),
                  Node (drop (Suc lo) (items r)) (drop (Suc lo) (children r)), f')"
        using node_split_ok [OF fl sh lo] db(3) by (simp add: hi_def f'_def)
      then have eq: "(if length (items r) \<ge> max_items t then do {
               (item2, oldroot, second, f') \<leftarrow> node_split r (max_items t div 2) (t_freelist t);
               case newNode f' of (nr, f'') \<Rightarrow>
                 Some (Node (items nr @ [item2]) (children nr @ [oldroot, second]), f'')
             } else Some (r, t_freelist t)) = Some (r1, f'')"
        using True by (simp add: n2 r1_def)
      have "length (items r1) < hi" using db by (simp add: r1_def)
      with eq shaped_root_split [OF sh full db(1), folded r1_def] fl'' show ?thesis
        by (intro exI [of _ r1] exI [of _ f''] exI [of _ "Suc h"]) (simp add: r1_def)
    qed
    then obtain r1 f1 h1 where
      pre: "(if length (items r) \<ge> max_items t then do {
               (item2, oldroot, second, f') \<leftarrow> node_split r (max_items t div 2) (t_freelist t);
               case newNode f' of (nr, f'') \<Rightarrow>
                 Some (Node (items nr @ [item2]) (children nr @ [oldroot, second]), f'')
             } else Some (r, t_freelist t)) = Some (r1, f1)"
      and sh1: "shaped lo hi h1 r1" and nfull: "length (items r1) < hi"
      and io1: "inorder r1 = inorder r" and fl1: "fl_ok f1"
      and re1: "items r1 = [] \<longrightarrow> children r1 = []" by blast
    have srt1: "sorted_wrt lt (inorder r1)" using srt io1 by simp
    note ok = node_insert_ok [OF swo db(1) sh1 nfull srt1 fl1, of zero item]
    then obtain out b r2 f2 where
      ins: "node_insert lt zero r1 item hi f1 = Some ((out, b), r2, f2)"
      by (cases "node_insert lt zero r1 item hi f1") (auto simp: insert_post_def)
    from ok have p: "shaped lo hi h1 r2" "length (items r1) \<le> length (items r2)"
        "length (items r2) \<le> Suc (length (items r1))" "fl_ok f2"
        "inorder r2 = ins_list lt item (inorder r1)"
        "b \<longleftrightarrow> (\<exists>y \<in> set (inorder r1). equiv_items lt y item)"
        "b \<longrightarrow> out \<in> set (inorder r1) \<and> equiv_items lt out item" "\<not> b \<longrightarrow> out = zero"
      unfolding ins by (simp_all add: insert_post_def)
    define t' where "t' = t\<lparr>root := Some r2, t_freelist := f2,
        t_length := (if \<not> b then t_length t + 1 else t_length t)\<rparr>"
    have run: "ReplaceOrInsert lt zero t item = Some ((out, b), t')"
      unfolding unwrapped Some option.case pre
      using ins by (simp add: hi_def t'_def)
    have re2: "items r2 = [] \<longrightarrow> children r2 = []"
    proof (cases h1)
      case 0 with p(1) show ?thesis by simp
    next
      case (Suc h')
      with sh1 have "children r1 \<noteq> []" by (auto simp: shaped_Suc)
      with re1 p(2) show ?thesis by auto
    qed
    have ln: "int (length (inorder r2)) = (if b then t_length t else t_length t + 1)"
      using length_ins_list [OF swo srt1, of item] p(5,6) tl co io1 by auto
    have "tree_inv lt t'"
      using deg dm p(1,3,4) nfull re2 sorted_ins_list [OF swo srt1, of item] p(5) ln
      by (auto simp: tree_inv_def t'_def contents_def lo_def hi_def minItems_def max_items_def)
    with run p co io1 ln show ?thesis
      by (intro exI [of _ out] exI [of _ b] exI [of _ t'])
         (auto simp: contents_def t'_def)
  qed
qed

lemma removed_Nil [simp]: "removed lt typ item [] = []"
  by (cases "typ") (simp_all add: removed_def)

lemma sorted_removed: "sorted_wrt lt xs \<Longrightarrow> sorted_wrt lt (removed lt typ item xs)"
proof (cases "typ")
  case removeItem
  assume "sorted_wrt lt xs"
  then show ?thesis using removeItem by (simp add: removed_def sorted_del_list)
next
  case removeMin
  assume "sorted_wrt lt xs"
  then show ?thesis using removeMin by (cases xs) (simp_all add: removed_def)
next
  case removeMax
  assume "sorted_wrt lt xs"
  then have "sorted_wrt lt (take (length xs - 1) xs)" by (rule sorted_wrt_take)
  then show ?thesis using removeMax by (simp add: removed_def butlast_conv_take)
qed

lemma snd_remove_result:
  "snd (remove_result lt zero typ item xs)
     \<longleftrightarrow> (typ = removeItem \<longrightarrow> (\<exists>y \<in> set xs. equiv_items lt y item))"
proof (cases "typ")
  case removeItem
  show ?thesis
  proof (cases "List.find (\<lambda>y. equiv_items lt y item) xs")
    case None
    then have "\<not> (\<exists>y \<in> set xs. equiv_items lt y item)" by (simp add: find_None_iff)
    with None removeItem show ?thesis by (simp add: remove_result_def)
  next
    case (Some y)
    then have "\<exists>y \<in> set xs. equiv_items lt y item"
      by (metis find_None_iff option.distinct(1))
    with Some removeItem show ?thesis by (simp add: remove_result_def)
  qed
qed (simp_all add: remove_result_def)

lemma length_removed:
  assumes "strict_weak_order lt" "sorted_wrt lt xs" "xs \<noteq> []"
  shows "int (length (removed lt typ item xs))
       = (if snd (remove_result lt zero typ item xs) then int (length xs) - 1 else int (length xs))"
proof (cases "typ")
  case removeItem
  have "int (length xs - 1) = int (length xs) - 1" using assms(3) by (cases xs) auto
  then show ?thesis
    using length_del_list [OF assms(1,2), of item] snd_remove_result [of lt zero "typ" item xs]
      removeItem
    by (auto simp: removed_def)
next
  case removeMin
  with assms(3) show ?thesis by (cases xs) (simp_all add: removed_def remove_result_def)
next
  case removeMax
  with assms(3) show ?thesis by (cases xs) (simp_all add: removed_def remove_result_def)
qed

lemma deleteItem_ok:
  assumes swo: "strict_weak_order lt" and inv: "tree_inv lt t"
  shows "\<exists>r t'. deleteItem lt zero t item typ = Some (r, t') \<and> tree_inv lt t'
     \<and> degree t' = degree t
     \<and> contents t' = removed lt typ item (contents t)
     \<and> r = delete_result lt zero typ item (contents t)
     \<and> t_length t' = (if snd r then t_length t - 1 else t_length t)"
proof -
  define lo where "lo = minItems t"
  define hi where "hi = max_items t"
  have deg: "2 \<le> degree t" and dm: "int (degree t) \<le> int_max" and fl: "fl_ok (t_freelist t)"
    and tl: "t_length t = int (length (contents t))" using inv by (simp_all add: tree_inv_def)
  note db = degree_bounds [OF deg, folded lo_def hi_def]
  have trivial: ?thesis if run: "deleteItem lt zero t item typ = Some ((zero, False), t)"
    and e: "contents t = []"
    using run e inv by (intro exI [of _ "(zero, False)"] exI [of _ t]) (simp add: delete_result_def)
  show ?thesis
  proof (cases "root t")
    case None
    then show ?thesis by (intro trivial) (simp_all add: deleteItem_def contents_def)
  next
    case (Some r)
    with inv obtain h where sh: "shaped lo hi h r" and rb: "length (items r) \<le> hi"
      and re: "items r = [] \<longrightarrow> children r = []" and srt: "sorted_wrt lt (inorder r)"
      by (auto simp: tree_inv_def lo_def hi_def)
    have co: "contents t = inorder r" using Some by (simp add: contents_def)
    show ?thesis
    proof (cases "items r = []")
      case True
      with re have "inorder r = []" by simp
      with True Some show ?thesis by (intro trivial) (simp_all add: deleteItem_def contents_def)
    next
      case False
      then have ne: "inorder r \<noteq> []" by (rule inorder_nonempty)
      have pre: "items r \<noteq> [] \<or> (0 < h \<and> lo < length (items (children r ! 0)))"
        using False by simp
      note ok = node_remove_ok [OF swo db(1) sh srt fl pre, of zero item "typ"]
      then obtain res r1 f1 where
        rem: "node_remove lt zero r item lo typ (t_freelist t) = Some (res, r1, f1)"
        by (cases "node_remove lt zero r item lo typ (t_freelist t)") (auto simp: remove_post_def)
      from ok have p: "shaped lo hi h r1" "length (items r1) \<le> length (items r)" "fl_ok f1"
        "inorder r1 = removed lt typ item (inorder r)"
        "res = remove_result lt zero typ item (inorder r)"
        unfolding rem by (simp_all add: remove_post_def)
      obtain out outb where res: "res = (out, outb)" by (cases res)
      define promote where "promote \<longleftrightarrow> length (items r1) = 0 \<and> length (children r1) > 0"
      define r2 where "r2 = (if promote then children r1 ! 0 else r1)"
      define f2 where "f2 = (if promote then freeNode f1 r1 else f1)"
      define t' where "t' = t\<lparr>root := Some r2, t_freelist := f2,
          t_length := (if outb then t_length t - 1 else t_length t)\<rparr>"
      have run: "deleteItem lt zero t item typ = Some (res, t')"
        using False rem res
        by (simp add: deleteItem_def Some lo_def [symmetric] nth_opt_def promote_def
            r2_def f2_def t'_def)
      have fl2: "fl_ok f2" using p(3) freeNode_ok [OF p(3)] by (simp add: f2_def)
      have r2: "(\<exists>h'. shaped lo hi h' r2) \<and> length (items r2) \<le> hi
          \<and> (items r2 = [] \<longrightarrow> children r2 = []) \<and> inorder r2 = inorder r1"
      proof (cases promote)
        case False
        with p(1,2) rb show ?thesis by (auto simp: r2_def promote_def)
      next
        case True
        then have e: "items r1 = []" and c: "children r1 \<noteq> []" by (simp_all add: promote_def)
        from c p(1) obtain h' where h: "h = Suc h'" by (cases h) auto
        with p(1) e have one: "length (children r1) = 1"
          and w: "wf_node lo hi h' (children r1 ! 0)" by (simp_all add: shaped_Suc)
        from one obtain c0 where cs: "children r1 = [c0]"
          by (cases "children r1") auto
        have r1: "r1 = Node [] [c0]" using e cs by (cases r1) simp
        have "inorder r1 = inorder c0" by (subst r1) simp
        moreover have "items c0 \<noteq> []" using w cs db(2) by (auto simp: wf_shaped)
        ultimately show ?thesis using w cs True by (auto simp: r2_def wf_shaped)
      qed
      have co': "contents t' = removed lt typ item (contents t)"
        using r2 p(4) co by (simp add: contents_def t'_def)
      have ob: "outb = snd (remove_result lt zero typ item (inorder r))"
        using p(5) res by (metis snd_conv)
      have ln: "int (length (inorder r2)) = (if outb then t_length t - 1 else t_length t)"
        using length_removed [OF swo srt ne, of "typ" item zero] r2 p(4) tl co ob by simp
      have "tree_inv lt t'"
        using deg dm fl2 r2 sorted_removed [OF srt, of "typ" item] p(4) ln
        by (auto simp: tree_inv_def t'_def contents_def lo_def hi_def minItems_def max_items_def)
      with run co' p(5) ne co res ob show ?thesis
        by (intro exI [of _ res] exI [of _ t']) (simp add: delete_result_def t'_def)
    qed
  qed
qed

text \<open>A call of \<^verbatim>\<open>ReplaceOrInsert\<close> that returns, at any degree: above \<open>2 ^ 62\<close> it returns on
  the empty tree only.\<close>

lemma ReplaceOrInsert_empty:
  assumes inv: "tree_inv lt t" and e: "root t = None"
  shows "\<exists>t'. ReplaceOrInsert lt zero t item = Some ((zero, False), t') \<and> tree_inv lt t'
     \<and> degree t' = degree t \<and> contents t' = [item] \<and> contents t = []
     \<and> t_length t' = t_length t + 1"
proof -
  have deg: "2 \<le> degree t" and dm: "int (degree t) \<le> int_max" and fl: "fl_ok (t_freelist t)"
    and tl: "t_length t = int (length (contents t))" using inv by (simp_all add: tree_inv_def)
  obtain nx f' where nf: "newNode (t_freelist t) = (nx, f')" by (cases "newNode (t_freelist t)")
  with newNode_ok [OF fl] have nx: "nx = Node [] []" and fl': "fl_ok f'" by simp_all
  define t' where "t' = t\<lparr>root := Some (Node [item] []), t_freelist := f', t_length := t_length t + 1\<rparr>"
  have run: "ReplaceOrInsert lt zero t item = Some ((zero, False), t')"
    by (simp add: ReplaceOrInsert_def e nf nx t'_def)
  have "shaped (minItems t') (max_items t') 0 (Node [item] [])" by simp
  then have "\<exists>h. shaped (minItems t') (max_items t') h (Node [item] [])" ..
  moreover have "length [item] \<le> max_items t'" using deg by (simp add: max_items_def t'_def)
  ultimately have "tree_inv lt t'"
    using deg dm fl' tl e by (simp add: tree_inv_def t'_def contents_def)
  with run e show ?thesis
    by (intro exI [of _ t']) (simp add: contents_def t'_def)
qed

lemma ReplaceOrInsert_inv:
  assumes swo: "strict_weak_order lt" and inv: "tree_inv lt t"
    and run: "ReplaceOrInsert lt zero t item = Some ((out, b), t')"
  shows "tree_inv lt t'" "degree t' = degree t"
    "contents t' = ins_list lt item (contents t)"
    "b \<longleftrightarrow> (\<exists>y \<in> set (contents t). equiv_items lt y item)"
    "b \<longrightarrow> out \<in> set (contents t) \<and> equiv_items lt out item"
    "\<not> b \<longrightarrow> out = zero"
    "t_length t' = (if b then t_length t else t_length t + 1)"
proof -
  have dm: "int (degree t) \<le> int_max" using inv by (simp add: tree_inv_def)
  have "tree_inv lt t' \<and> degree t' = degree t
     \<and> contents t' = ins_list lt item (contents t)
     \<and> (b \<longleftrightarrow> (\<exists>y \<in> set (contents t). equiv_items lt y item))
     \<and> (b \<longrightarrow> out \<in> set (contents t) \<and> equiv_items lt out item)
     \<and> (\<not> b \<longrightarrow> out = zero)
     \<and> t_length t' = (if b then t_length t else t_length t + 1)"
  proof (cases "int (degree t) \<le> 2 ^ 62")
    case True
    from ReplaceOrInsert_ok [OF swo inv True, of zero item] run show ?thesis by auto
  next
    case False
    show ?thesis
    proof (cases "root t")
      case None
      from ReplaceOrInsert_empty [OF inv None, of zero item] run show ?thesis by auto
    next
      case (Some r)
      from ReplaceOrInsert_big [OF False dm Some, of lt zero item] run show ?thesis by simp
    qed
  qed
  then show "tree_inv lt t'" "degree t' = degree t"
    "contents t' = ins_list lt item (contents t)"
    "b \<longleftrightarrow> (\<exists>y \<in> set (contents t). equiv_items lt y item)"
    "b \<longrightarrow> out \<in> set (contents t) \<and> equiv_items lt out item"
    "\<not> b \<longrightarrow> out = zero"
    "t_length t' = (if b then t_length t else t_length t + 1)" by blast+
qed

text \<open>Every operation that returns keeps the invariant and the degree, and changes the
  stored sequence as \<open>list_apply\<close> says. Up to the degree \<open>2 ^ 62\<close> every operation returns.\<close>

lemma removed_list_apply:
  "removed lt removeItem x xs = list_apply lt (OpDelete x) xs"
  "removed lt removeMin x xs = list_apply lt OpDeleteMin xs"
  "removed lt removeMax x xs = list_apply lt OpDeleteMax xs"
  by (simp_all add: removed_def)

lemma apply_operation_inv:
  assumes swo: "strict_weak_order lt" and inv: "tree_inv lt t"
    and a: "apply_operation lt zero t op = Some (r, t')"
  shows "tree_inv lt t'" "degree t' = degree t" "contents t' = list_apply lt op (contents t)"
proof -
  have del: "tree_inv lt t' \<and> degree t' = degree t
      \<and> contents t' = removed lt typ x (contents t)"
    if d: "deleteItem lt zero t x typ = Some (r, t')" for x "typ"
    using deleteItem_ok [OF swo inv, of zero x "typ"] d by auto
  have "tree_inv lt t' \<and> degree t' = degree t \<and> contents t' = list_apply lt op (contents t)"
  proof (cases op)
    case (OpReplaceOrInsert x)
    obtain out b where r: "r = (out, b)" by (cases r)
    from a OpReplaceOrInsert r have "ReplaceOrInsert lt zero t x = Some ((out, b), t')"
      by (simp add: apply_operation_def)
    from ReplaceOrInsert_inv(1-3) [OF swo inv this] OpReplaceOrInsert show ?thesis by simp
  next
    case (OpDelete x)
    with del [of x removeItem] a show ?thesis
      by (simp add: apply_operation_def Delete_def removed_list_apply)
  next
    case OpDeleteMin
    with del [of zero removeMin] a show ?thesis
      by (simp add: apply_operation_def DeleteMin_def removed_list_apply)
  next
    case OpDeleteMax
    with del [of zero removeMax] a show ?thesis
      by (simp add: apply_operation_def DeleteMax_def removed_list_apply)
  qed
  then show "tree_inv lt t'" "degree t' = degree t"
    "contents t' = list_apply lt op (contents t)" by simp_all
qed

lemma apply_operation_ok:
  assumes swo: "strict_weak_order lt" and inv: "tree_inv lt t"
    and small: "int (degree t) \<le> 2 ^ 62"
  shows "\<exists>r t'. apply_operation lt zero t op = Some (r, t')"
proof (cases op)
  case (OpReplaceOrInsert x)
  with ReplaceOrInsert_ok [OF swo inv small, of zero x] show ?thesis
    by (auto simp: apply_operation_def)
next
  case (OpDelete x)
  with deleteItem_ok [OF swo inv, of zero x removeItem] show ?thesis
    by (auto simp: apply_operation_def Delete_def)
next
  case OpDeleteMin
  with deleteItem_ok [OF swo inv, of zero zero removeMin] show ?thesis
    by (auto simp: apply_operation_def DeleteMin_def)
next
  case OpDeleteMax
  with deleteItem_ok [OF swo inv, of zero zero removeMax] show ?thesis
    by (auto simp: apply_operation_def DeleteMax_def)
qed

lemma run_inv:
  assumes swo: "strict_weak_order lt"
  shows "tree_inv lt t \<Longrightarrow> run lt zero t ops = Some (rs, t')
     \<Longrightarrow> tree_inv lt t' \<and> degree t' = degree t \<and> length rs = length ops
         \<and> contents t' = list_run lt ops (contents t)"
proof (induction ops arbitrary: t rs)
  case Nil
  then show ?case by (simp add: list_run_def)
next
  case (Cons op ops)
  from Cons.prems(2) obtain r t1 rs1 where
    a: "apply_operation lt zero t op = Some (r, t1)"
    and b: "run lt zero t1 ops = Some (rs1, t')" and rs: "rs = r # rs1"
    by (auto split: bind_splits)
  note ai = apply_operation_inv [OF swo Cons.prems(1) a]
  from Cons.IH [OF ai(1) b] ai(2,3) show ?case
    unfolding rs by (simp add: list_run_def)
qed

lemma run_ok:
  assumes swo: "strict_weak_order lt"
  shows "tree_inv lt t \<Longrightarrow> int (degree t) \<le> 2 ^ 62 \<Longrightarrow> \<exists>rs t'. run lt zero t ops = Some (rs, t')"
proof (induction ops arbitrary: t)
  case Nil then show ?case by simp
next
  case (Cons op ops)
  from apply_operation_ok [OF swo Cons.prems, of zero op] obtain r t1 where
    a: "apply_operation lt zero t op = Some (r, t1)" by blast
  note ai = apply_operation_inv [OF swo Cons.prems(1) a]
  from Cons.IH [OF ai(1)] ai(2) Cons.prems(2) obtain rs t2 where
    b: "run lt zero t1 ops = Some (rs, t2)" by auto
  show ?case using a b by (intro exI [of _ "r # rs"] exI [of _ t2]) simp
qed

lemma fresh_run_inv:
  assumes swo: "strict_weak_order lt" and r: "fresh_run lt zero deg ops = Some (rs, t)"
  shows "tree_inv lt t" "degree t = nat deg" "length rs = length ops"
    "contents t = list_run lt ops []"
proof -
  from r obtain t0 where n: "(New deg :: 'a BTree option) = Some t0"
    and r0: "run lt zero t0 ops = Some (rs, t)"
    by (auto simp: fresh_run_def split: bind_splits)
  from New_Some [OF n] have d: "2 \<le> deg" "deg \<le> int_max" by simp_all
  from tree_inv_New [OF d, of lt] n have i0: "tree_inv lt t0" "degree t0 = nat deg"
    "contents t0 = []" by auto
  from run_inv [OF swo i0(1) r0] i0(2,3)
  show "tree_inv lt t" "degree t = nat deg" "length rs = length ops"
    "contents t = list_run lt ops []" by simp_all
qed

lemma fresh_run_ok:
  assumes swo: "strict_weak_order lt" and deg: "2 \<le> deg" "deg \<le> 2 ^ 62"
  shows "\<exists>rs t. fresh_run lt zero deg ops = Some (rs, t)"
proof -
  have "deg \<le> int_max" using deg(2) by (simp add: int_max_def)
  from tree_inv_New [OF deg(1) this, of lt] obtain t0 where
    n: "(New deg :: 'a BTree option) = Some t0" "tree_inv lt t0" "degree t0 = nat deg" by blast
  have "int (degree t0) \<le> 2 ^ 62" using n(3) deg by simp
  from run_ok [OF swo n(2) this, of zero ops] obtain rs t where
    r: "run lt zero t0 ops = Some (rs, t)" by blast
  show ?thesis using n r by (intro exI [of _ rs] exI [of _ t]) (simp add: fresh_run_def)
qed

section \<open>Full scans\<close>

lemma visit_append:
  "visit iter (xs @ ys) s = (if fst (visit iter xs s) then visit iter ys (snd (visit iter xs s))
                             else (False, snd (visit iter xs s)))"
  by (induction xs arbitrary: s) (auto split: prod.splits)

lemma visit_collect: "visit collect xs acc = (True, acc @ xs)"
  by (induction xs arbitrary: acc) (auto simp: collect_def)

lemma tail_from_0: "shaped lo hi h n \<Longrightarrow> tail_from n 0 = inorder n"
proof (cases h)
  case 0
  assume "shaped lo hi h n"
  with 0 show ?thesis by (simp add: tail_from_def)
next
  case (Suc h')
  assume "shaped lo hi h n"
  with Suc have len: "length (children n) = length (items n) + 1" by (simp add: shaped_Suc)
  then have "children n \<noteq> []" by auto
  with inorder_focus [OF len, of 0] show ?thesis by (simp add: tail_from_def)
qed

lemma tail_from_step:
  assumes "shaped lo hi h n" "i < length (items n)"
  shows "tail_from n i = (if children n = [] then [] else inorder (children n ! i))
           @ items n ! i # tail_from n (Suc i)"
proof (cases h)
  case 0
  with assms show ?thesis by (simp add: tail_from_def Cons_nth_drop_Suc)
next
  case (Suc h')
  with assms have len: "length (children n) = length (items n) + 1" by (simp add: shaped_Suc)
  then have "children n \<noteq> []" by auto
  with right_of_step [OF len assms(2)] show ?thesis by (simp add: tail_from_def)
qed

lemma tail_from_end:
  assumes "shaped lo hi h n"
  shows "tail_from n (length (items n))
       = (if children n = [] then [] else inorder (children n ! length (items n)))"
  by (simp add: tail_from_def)

lemma iterate_ascend_full:
  "shaped lo hi h n \<Longrightarrow>
   \<exists>hit'. node_iterate lt n ascend None None incl hit iter s
     = Some ((hit', fst (visit iter (inorder n) s)), snd (visit iter (inorder n) s))"
proof (induction h arbitrary: n hit s)
  case 0
  then have cs: "children n = []" by simp
  have loop: "\<exists>hit'. ascend_loop lt n i (length (items n)) None None incl hit iter s
      = Some ((hit', fst (visit iter (drop i (items n)) s)), snd (visit iter (drop i (items n)) s))"
    if "i \<le> length (items n)" for i hit s
    using that
  proof (induction "length (items n) - i" arbitrary: i hit s)
    case 0
    then show ?case by (subst ascend_loop.simps) (simp add: cs)
  next
    case (Suc k)
    then have il: "i < length (items n)" by simp
    have d: "drop i (items n) = items n ! i # drop (Suc i) (items n)"
      using il by (simp add: Cons_nth_drop_Suc)
    obtain c s2 where it: "iter (items n ! i) s = (c, s2)" by (cases "iter (items n ! i) s")
    have "\<exists>hit'. ascend_loop lt n (Suc i) (length (items n)) None None incl True iter s2
        = Some ((hit', fst (visit iter (drop (Suc i) (items n)) s2)),
                snd (visit iter (drop (Suc i) (items n)) s2))"
    proof (rule Suc(1))
      show "k = length (items n) - Suc i" using Suc(2) by simp
      show "Suc i \<le> length (items n)" using il by simp
    qed
    then obtain hit' where
      "ascend_loop lt n (Suc i) (length (items n)) None None incl True iter s2
        = Some ((hit', fst (visit iter (drop (Suc i) (items n)) s2)),
                snd (visit iter (drop (Suc i) (items n)) s2))" by blast
    then show ?case
      using il by (subst ascend_loop.simps) (auto simp: cs nth_opt_def d it)
  qed
  from loop [of 0 hit s] show ?case
    by (subst node_iterate.simps) (simp add: ascend_index_def ascend_stopIndex_def cs)
next
  case (Suc h)
  note sh = Suc.prems
  have len: "length (children n) = length (items n) + 1" using sh by (simp add: shaped_Suc)
  have cne: "children n \<noteq> []" using len by auto
  have child: "\<exists>hit'. node_iterate lt (children n ! i) ascend None None incl hit iter s
      = Some ((hit', fst (visit iter (inorder (children n ! i)) s)),
              snd (visit iter (inorder (children n ! i)) s))"
    if "i \<le> length (items n)" for i hit s
    using Suc.IH [of "children n ! i" hit s] shaped_child [OF sh that] by (simp add: wf_shaped)
  have loop: "\<exists>hit'. ascend_loop lt n i (length (items n)) None None incl hit iter s
      = Some ((hit', fst (visit iter (tail_from n i) s)), snd (visit iter (tail_from n i) s))"
    if "i \<le> length (items n)" for i hit s
    using that
  proof (induction "length (items n) - i" arbitrary: i hit s)
    case 0
    then have i: "i = length (items n)" by simp
    from child [of i hit s] obtain hit' where
      "node_iterate lt (children n ! i) ascend None None incl hit iter s
        = Some ((hit', fst (visit iter (inorder (children n ! i)) s)),
                snd (visit iter (inorder (children n ! i)) s))" using i by auto
    then show ?case
      using i len cne by (subst ascend_loop.simps) (simp add: nth_opt_def tail_from_def)
  next
    case (Suc k)
    then have il: "i < length (items n)" by simp
    let ?ic = "inorder (children n ! i)"
    from child [of i hit s] il obtain hit1 where
      c1: "node_iterate lt (children n ! i) ascend None None incl hit iter s
        = Some ((hit1, fst (visit iter ?ic s)), snd (visit iter ?ic s))" by auto
    define s1 where "s1 = snd (visit iter ?ic s)"
    have t: "tail_from n i = ?ic @ items n ! i # tail_from n (Suc i)"
      using tail_from_step [OF sh il] cne by simp
    obtain c s2 where it: "iter (items n ! i) s1 = (c, s2)" by (cases "iter (items n ! i) s1")
    have "\<exists>hit'. ascend_loop lt n (Suc i) (length (items n)) None None incl True iter s2
        = Some ((hit', fst (visit iter (tail_from n (Suc i)) s2)),
                snd (visit iter (tail_from n (Suc i)) s2))"
    proof (rule Suc(1))
      show "k = length (items n) - Suc i" using Suc(2) by simp
      show "Suc i \<le> length (items n)" using il by simp
    qed
    then obtain hit' where
      l: "ascend_loop lt n (Suc i) (length (items n)) None None incl True iter s2
        = Some ((hit', fst (visit iter (tail_from n (Suc i)) s2)),
                snd (visit iter (tail_from n (Suc i)) s2))" by blast
    show ?case
      using il len cne
      by (subst ascend_loop.simps)
         (auto simp: nth_opt_def c1 t visit_append s1_def [symmetric] it l)
  qed
  from loop [of 0 hit s] show ?case
    by (subst node_iterate.simps)
       (simp add: ascend_index_def ascend_stopIndex_def tail_from_0 [OF sh])
qed

lemma head_to_end: "shaped lo hi h n \<Longrightarrow> head_to n (length (items n)) = inorder n"
proof (cases h)
  case 0
  assume "shaped lo hi h n"
  with 0 show ?thesis by (simp add: head_to_def)
next
  case (Suc h')
  assume "shaped lo hi h n"
  with Suc have len: "length (children n) = length (items n) + 1" by (simp add: shaped_Suc)
  then have "children n \<noteq> []" by auto
  with inorder_focus [OF len, of "length (items n)"] show ?thesis by (simp add: head_to_def)
qed

lemma head_to_step:
  assumes "shaped lo hi h n" "j < length (items n)"
  shows "head_to n (Suc j) = head_to n j @ items n ! j
           # (if children n = [] then [] else inorder (children n ! Suc j))"
proof (cases h)
  case 0
  with assms show ?thesis by (simp add: head_to_def take_Suc_conv_app_nth)
next
  case (Suc h')
  with assms have len: "length (children n) = length (items n) + 1" by (simp add: shaped_Suc)
  then have "children n \<noteq> []" by auto
  with left_of_Suc [OF len assms(2)] show ?thesis by (simp add: head_to_def)
qed

lemma iterate_descend_full:
  "shaped lo hi h n \<Longrightarrow>
   \<exists>hit'. node_iterate lt n descend None None incl hit iter s
     = Some ((hit', fst (visit iter (rev (inorder n)) s)), snd (visit iter (rev (inorder n)) s))"
proof (induction h arbitrary: n hit s)
  case 0
  note sh = "0.prems"
  then have cs: "children n = []" by simp
  have loop: "\<exists>hit'. descend_loop lt n (int j - 1) 0 None None incl hit iter s
      = Some ((hit', fst (visit iter (rev (head_to n j)) s)), snd (visit iter (rev (head_to n j)) s))"
    if "j \<le> length (items n)" for j hit s
    using that
  proof (induction j arbitrary: hit s)
    case 0
    then show ?case by (subst descend_loop.simps) (simp add: cs head_to_def)
  next
    case (Suc j)
    then have jl: "j < length (items n)" by simp
    have hd: "rev (head_to n (Suc j)) = items n ! j # rev (head_to n j)"
      using head_to_step [OF sh jl] cs by simp
    obtain c s2 where it: "iter (items n ! j) s = (c, s2)" by (cases "iter (items n ! j) s")
    have "\<exists>hit'. descend_loop lt n (int j - 1) 0 None None incl True iter s2
        = Some ((hit', fst (visit iter (rev (head_to n j)) s2)),
                snd (visit iter (rev (head_to n j)) s2))"
      by (rule Suc.IH) (use jl in simp)
    then obtain hit' where
      "descend_loop lt n (int j - 1) 0 None None incl True iter s2
        = Some ((hit', fst (visit iter (rev (head_to n j)) s2)),
                snd (visit iter (rev (head_to n j)) s2))" by blast
    then show ?case
      using jl by (subst descend_loop.simps) (auto simp: cs nth_opt_def hd it)
  qed
  from loop [of "length (items n)" hit s] show ?case
    by (subst node_iterate.simps)
       (simp add: descend_index_def descend_stopIndex_def head_to_end [OF sh])
next
  case (Suc h)
  note sh = Suc.prems
  have len: "length (children n) = length (items n) + 1" using sh by (simp add: shaped_Suc)
  have cne: "children n \<noteq> []" using len by auto
  have child: "\<exists>hit'. node_iterate lt (children n ! i) descend None None incl hit iter s
      = Some ((hit', fst (visit iter (rev (inorder (children n ! i))) s)),
              snd (visit iter (rev (inorder (children n ! i))) s))"
    if "i \<le> length (items n)" for i hit s
    using Suc.IH [of "children n ! i" hit s] shaped_child [OF sh that] by (simp add: wf_shaped)
  have loop: "\<exists>hit'. descend_loop lt n (int j - 1) 0 None None incl hit iter s
      = Some ((hit', fst (visit iter (rev (head_to n j)) s)), snd (visit iter (rev (head_to n j)) s))"
    if "j \<le> length (items n)" for j hit s
    using that
  proof (induction j arbitrary: hit s)
    case 0
    from child [of 0 hit s] obtain hit' where
      "node_iterate lt (children n ! 0) descend None None incl hit iter s
        = Some ((hit', fst (visit iter (rev (inorder (children n ! 0))) s)),
                snd (visit iter (rev (inorder (children n ! 0))) s))" by auto
    then show ?case
      using len cne by (subst descend_loop.simps) (simp add: nth_opt_def head_to_def)
  next
    case (Suc j)
    then have jl: "j < length (items n)" by simp
    let ?ic = "rev (inorder (children n ! Suc j))"
    from child [of "Suc j" hit s] jl obtain hit1 where
      c1: "node_iterate lt (children n ! Suc j) descend None None incl hit iter s
        = Some ((hit1, fst (visit iter ?ic s)), snd (visit iter ?ic s))" by auto
    define s1 where "s1 = snd (visit iter ?ic s)"
    have hd: "rev (head_to n (Suc j)) = ?ic @ items n ! j # rev (head_to n j)"
      using head_to_step [OF sh jl] cne by simp
    obtain c s2 where it: "iter (items n ! j) s1 = (c, s2)" by (cases "iter (items n ! j) s1")
    have "\<exists>hit'. descend_loop lt n (int j - 1) 0 None None incl True iter s2
        = Some ((hit', fst (visit iter (rev (head_to n j)) s2)),
                snd (visit iter (rev (head_to n j)) s2))"
      by (rule Suc.IH) (use jl in simp)
    then obtain hit' where
      l: "descend_loop lt n (int j - 1) 0 None None incl True iter s2
        = Some ((hit', fst (visit iter (rev (head_to n j)) s2)),
                snd (visit iter (rev (head_to n j)) s2))" by blast
    show ?case
      using jl len cne
      by (subst descend_loop.simps)
         (auto simp: nth_opt_def c1 hd visit_append s1_def [symmetric] it l nat_add_distrib)
  qed
  from loop [of "length (items n)" hit s] show ?case
    by (subst node_iterate.simps)
       (simp add: descend_index_def descend_stopIndex_def head_to_end [OF sh])
qed

section \<open>Scans of a tree\<close>

lemma Ascend_contents:
  assumes "tree_inv lt t"
  shows "Ascend lt t iter s = Some (snd (visit iter (contents t) s))"
proof (cases "root t")
  case None
  then show ?thesis by (simp add: Ascend_def tree_iterate_def contents_def)
next
  case (Some r)
  with assms obtain h where "shaped (minItems t) (max_items t) h r" by (auto simp: tree_inv_def)
  from iterate_ascend_full [OF this, of lt False False iter s] Some show ?thesis
    by (auto simp: Ascend_def tree_iterate_def contents_def)
qed

lemma Descend_contents:
  assumes "tree_inv lt t"
  shows "Descend lt t iter s = Some (snd (visit iter (rev (contents t)) s))"
proof (cases "root t")
  case None
  then show ?thesis by (simp add: Descend_def tree_iterate_def contents_def)
next
  case (Some r)
  with assms obtain h where "shaped (minItems t) (max_items t) h r" by (auto simp: tree_inv_def)
  from iterate_descend_full [OF this, of lt False False iter s] Some show ?thesis
    by (auto simp: Descend_def tree_iterate_def contents_def)
qed

lemma sorted_contents: "tree_inv lt t \<Longrightarrow> sorted_wrt lt (contents t)"
  by (cases "root t") (auto simp: tree_inv_def contents_def)

lemma Ascend_collect: "tree_inv lt t \<Longrightarrow> Ascend lt t collect [] = Some (contents t)"
  by (simp add: Ascend_contents visit_collect)

lemma Descend_collect: "tree_inv lt t \<Longrightarrow> Descend lt t collect [] = Some (rev (contents t))"
  by (simp add: Descend_contents visit_collect)

section \<open>Runs of operations\<close>

lemma wf_node_literal:
  assumes "2 \<le> d"
  shows "wf_node (d - 1) (2 * d - 1) h c \<Longrightarrow> node_shape c \<and> node_bounds d c"
proof (induction h arbitrary: c)
  case 0
  then show ?case by (cases c) simp
next
  case (Suc h)
  obtain its cs where c: "c = Node its cs" by (cases c)
  with Suc.prems have "\<forall>x \<in> set cs. wf_node (d - 1) (2 * d - 1) h x" by simp
  with Suc.IH have "\<forall>x \<in> set cs. node_shape x \<and> node_bounds d x" by blast
  with Suc.prems c show ?case by simp
qed

lemma shaped_literal:
  assumes "2 \<le> d" "shaped (d - 1) (2 * d - 1) h r"
  shows "node_shape r \<and> (\<forall>c \<in> set (children r). node_bounds d c)"
proof (cases h)
  case 0
  with assms(2) show ?thesis by (cases r) simp
next
  case (Suc h')
  with assms(2) have len: "length (children r) = length (items r) + 1"
    and all: "\<forall>c \<in> set (children r). wf_node (d - 1) (2 * d - 1) h' c"
    by (simp_all add: shaped_Suc)
  from all wf_node_literal [OF assms(1)]
  have "\<forall>c \<in> set (children r). node_shape c \<and> node_bounds d c" by blast
  with len show ?thesis by (cases r) simp
qed

lemma equiv_unique:
  assumes swo: "strict_weak_order lt" and s: "sorted_wrt lt xs"
    and a: "a \<in> set xs" "equiv_items lt a x" and b: "b \<in> set xs" "equiv_items lt b x"
  shows "a = b"
proof -
  from a(1) b(1) obtain i j where i: "i < length xs" "xs ! i = a" and j: "j < length xs" "xs ! j = b"
    by (auto simp: in_set_conv_nth)
  have "i = j"
  proof (rule ccontr)
    assume "i \<noteq> j"
    then consider "i < j" | "j < i" by linarith
    then show False
    proof cases
      case 1
      then have "lt a b" using s i j by (auto simp: sorted_wrt_iff_nth_less)
      with b(2) swo have "lt a x" by (auto simp: equiv_items_def intro: swo_lt_nlt)
      with a(2) show False by (simp add: equiv_items_def)
    next
      case 2
      then have "lt b a" using s i j by (auto simp: sorted_wrt_iff_nth_less)
      with a(2) swo have "lt b x" by (auto simp: equiv_items_def intro: swo_lt_nlt)
      with b(2) show False by (simp add: equiv_items_def)
    qed
  qed
  with i j show ?thesis by simp
qed

lemma inserted_Cons:
  "inserted (op # ops) (r # rs) = (if is_insert op \<and> \<not> snd r then 1 else 0) + inserted ops rs"
  by (simp add: inserted_def)

lemma deleted_Cons:
  "deleted (op # ops) (r # rs) = (if \<not> is_insert op \<and> snd r then 1 else 0) + deleted ops rs"
  by (simp add: deleted_def)

lemma apply_operation_length:
  assumes swo: "strict_weak_order lt" and inv: "tree_inv lt t"
    and a: "apply_operation lt zero t op = Some (r, t')"
  shows "tree_inv lt t'"
    "t_length t' = t_length t + (if is_insert op \<and> \<not> snd r then 1 else 0)
                     - (if \<not> is_insert op \<and> snd r then 1 else 0)"
proof -
  have del: "tree_inv lt t' \<and> t_length t' = (if snd r then t_length t - 1 else t_length t)"
    if d: "deleteItem lt zero t x typ = Some (r, t')" for x "typ"
  proof -
    from deleteItem_ok [OF swo inv, of zero x "typ"] obtain r0 t0 where
      e: "deleteItem lt zero t x typ = Some (r0, t0)" and p: "tree_inv lt t0"
      "t_length t0 = (if snd r0 then t_length t - 1 else t_length t)" by blast
    from e d have "r0 = r" "t0 = t'" by simp_all
    with p show ?thesis by simp
  qed
  have ins: "tree_inv lt t' \<and> t_length t' = (if snd r then t_length t else t_length t + 1)"
    if d: "ReplaceOrInsert lt zero t x = Some (r, t')" for x
  proof -
    obtain out b where r: "r = (out, b)" by (cases r)
    from ReplaceOrInsert_inv(1,7) [OF swo inv d [unfolded r]] r show ?thesis by simp
  qed
  have "tree_inv lt t' \<and> t_length t' = t_length t + (if is_insert op \<and> \<not> snd r then 1 else 0)
                     - (if \<not> is_insert op \<and> snd r then 1 else 0)"
  proof (cases op)
    case (OpReplaceOrInsert x)
    with ins [of x] a show ?thesis by (simp add: apply_operation_def)
  next
    case (OpDelete x)
    with del [of x removeItem] a show ?thesis by (simp add: apply_operation_def Delete_def)
  next
    case OpDeleteMin
    with del [of zero removeMin] a show ?thesis by (simp add: apply_operation_def DeleteMin_def)
  next
    case OpDeleteMax
    with del [of zero removeMax] a show ?thesis by (simp add: apply_operation_def DeleteMax_def)
  qed
  then show "tree_inv lt t'"
    "t_length t' = t_length t + (if is_insert op \<and> \<not> snd r then 1 else 0)
                     - (if \<not> is_insert op \<and> snd r then 1 else 0)" by simp_all
qed

lemma run_counts:
  assumes swo: "strict_weak_order lt"
  shows "tree_inv lt t \<Longrightarrow> run lt zero t ops = Some (rs, t')
     \<Longrightarrow> t_length t' = t_length t + int (inserted ops rs) - int (deleted ops rs)"
proof (induction ops arbitrary: t rs)
  case Nil
  then show ?case by (simp add: inserted_def deleted_def)
next
  case (Cons op ops)
  from Cons.prems(2) obtain r t1 rs1 where
    a: "apply_operation lt zero t op = Some (r, t1)"
    and b: "run lt zero t1 ops = Some (rs1, t')" and rs: "rs = r # rs1"
    by (auto split: bind_splits)
  note al = apply_operation_length [OF swo Cons.prems(1) a]
  from Cons.IH [OF al(1) b] al(2) show ?case
    unfolding rs inserted_Cons deleted_Cons by simp
qed

section \<open>The claims of the specification\<close>

text \<open>Claim C1. On every tree reached from a fresh tree by a sequence of
  \<^verbatim>\<open>ReplaceOrInsert\<close>, \<^verbatim>\<open>Delete\<close>, \<^verbatim>\<open>DeleteMin\<close> and \<^verbatim>\<open>DeleteMax\<close> calls (for a degree from 2 to
  \<open>2 ^ 62\<close> the run itself never fails), a full ascending scan visits the elements that the
  tree stores, which are the elements that the sequence of calls leaves (\<open>list_run\<close>), in
  strictly ascending order, and a full descending scan visits exactly the reverse. With any
  callback, the scan calls it on that sequence until it answers \<^verbatim>\<open>false\<close>.\<close>

theorem scans_ascending:
  assumes "strict_weak_order lt" and "2 \<le> deg" and "deg \<le> 2 ^ 62"
  shows "\<exists>rs t. fresh_run lt zero deg ops = Some (rs, t)
     \<and> contents t = list_run lt ops []
     \<and> Ascend lt t collect [] = Some (contents t) \<and> sorted_wrt lt (contents t)
     \<and> Descend lt t collect [] = Some (rev (contents t))
     \<and> (\<forall>iter s. Ascend lt t iter s = Some (snd (visit iter (contents t) (s :: 's))))
     \<and> (\<forall>iter s. Descend lt t iter s = Some (snd (visit iter (rev (contents t)) (s :: 's))))"
proof -
  from fresh_run_ok [OF assms, of zero ops] obtain rs t where
    r: "fresh_run lt zero deg ops = Some (rs, t)" by blast
  note inv = fresh_run_inv(1) [OF assms(1) r] and co = fresh_run_inv(4) [OF assms(1) r]
  show ?thesis
    using r co Ascend_collect [OF inv] Descend_collect [OF inv] sorted_contents [OF inv]
    by (intro exI [of _ rs] exI [of _ t])
       (simp add: Ascend_contents [OF inv] Descend_contents [OF inv])
qed

theorem scans_ascending_witness:
  "strict_weak_order ((<) :: nat \<Rightarrow> nat \<Rightarrow> bool) \<and> (2 :: int) \<le> 2 \<and> (2 :: int) \<le> 2 ^ 62
   \<and> (\<exists>rs t. fresh_run (<) (0 :: nat) 2
         (map OpReplaceOrInsert [10, 20, 5, 6, 12, 30, 7, 17] @ [OpDelete 10, OpDeleteMin])
           = Some (rs, t)
       \<and> contents t = [6, 7, 12, 17, 20, 30]
       \<and> Ascend (<) t collect [] = Some [6, 7, 12, 17, 20, 30]
       \<and> sorted_wrt (<) [6, 7, 12, 17, 20, 30 :: nat]
       \<and> Descend (<) t collect [] = Some [30, 20, 17, 12, 7, 6]
       \<and> (\<forall>iter s. Ascend (<) t iter s
             = Some (snd (visit iter [6, 7, 12, 17, 20, 30] (s :: nat list))))
       \<and> (\<forall>iter s. Descend (<) t iter s
             = Some (snd (visit iter [30, 20, 17, 12, 7, 6] (s :: nat list)))))"
proof -
  have d: "(2 :: int) \<le> 2" "(2 :: int) \<le> 2 ^ 62" by simp_all
  have l: "list_run (<) (map OpReplaceOrInsert [10, 20, 5, 6, 12, 30, 7, 17]
             @ [OpDelete 10, OpDeleteMin]) [] = [6, 7, 12, 17, 20, 30 :: nat]"
    by (simp add: list_run_def)
  from scans_ascending [OF swo_nat d, of 0
      "map OpReplaceOrInsert [10, 20, 5, 6, 12, 30, 7, 17] @ [OpDelete 10, OpDeleteMin]"]
  obtain rs t where
    r: "fresh_run (<) (0 :: nat) 2
         (map OpReplaceOrInsert [10, 20, 5, 6, 12, 30, 7, 17] @ [OpDelete 10, OpDeleteMin])
           = Some (rs, t)"
    and c: "contents t = [6, 7, 12, 17, 20, 30]"
    and a: "Ascend (<) t collect [] = Some (contents t)"
    and s: "sorted_wrt (<) (contents t)"
    and e: "Descend (<) t collect [] = Some (rev (contents t))"
    and ai: "\<And>iter s. Ascend (<) t iter s
               = Some (snd (visit iter (contents t) (s :: nat list)))"
    and ei: "\<And>iter s. Descend (<) t iter s
               = Some (snd (visit iter (rev (contents t)) (s :: nat list)))"
    unfolding l by blast
  have rv: "rev (contents t) = [30, 20, 17, 12, 7, 6]" by (simp add: c)
  have "sorted_wrt (<) [6, 7, 12, 17, 20, 30 :: nat]" by simp
  with r c a [unfolded c] e [unfolded rv] ai [unfolded c] ei [unfolded rv] swo_nat d
  show ?thesis by blast
qed

text \<open>Claim C2. After every sequence of mutations on a fresh tree of degree \<open>d\<close>, from 2 to
  \<open>2 ^ 62\<close>, every node has no children or one child more than items, every node below the
  root holds between \<open>d - 1\<close> and \<open>2 * d - 1\<close> items, and the root holds at most
  \<open>2 * d - 1\<close>.\<close>

theorem node_structure:
  assumes "strict_weak_order lt" and "2 \<le> deg" and "deg \<le> 2 ^ 62"
  shows "\<exists>rs t. fresh_run lt zero deg ops = Some (rs, t) \<and> degree t = nat deg
     \<and> (case root t of
           None \<Rightarrow> True
         | Some r \<Rightarrow> node_shape r \<and> length (items r) \<le> 2 * degree t - 1
                     \<and> (\<forall>c \<in> set (children r). node_bounds (degree t) c))"
proof -
  from fresh_run_ok [OF assms, of zero ops] obtain rs t where
    r: "fresh_run lt zero deg ops = Some (rs, t)" by blast
  note inv = fresh_run_inv(1) [OF assms(1) r] and d = fresh_run_inv(2) [OF assms(1) r]
  have d2: "2 \<le> degree t" using inv by (simp add: tree_inv_def)
  have "case root t of
           None \<Rightarrow> True
         | Some r \<Rightarrow> node_shape r \<and> length (items r) \<le> 2 * degree t - 1
                     \<and> (\<forall>c \<in> set (children r). node_bounds (degree t) c)"
  proof (cases "root t")
    case None then show ?thesis by simp
  next
    case (Some r)
    with inv obtain h where "shaped (degree t - 1) (2 * degree t - 1) h r"
      and "length (items r) \<le> 2 * degree t - 1"
      by (auto simp: tree_inv_def minItems_def max_items_def mult.commute)
    with shaped_literal [OF d2] Some show ?thesis by auto
  qed
  with r d show ?thesis by blast
qed

theorem node_structure_witness:
  "strict_weak_order ((<) :: nat \<Rightarrow> nat \<Rightarrow> bool) \<and> (2 :: int) \<le> 2 \<and> (2 :: int) \<le> 2 ^ 62
   \<and> (\<exists>rs t. fresh_run (<) (0 :: nat) 2
         [OpReplaceOrInsert 10, OpReplaceOrInsert 20, OpReplaceOrInsert 5, OpReplaceOrInsert 6,
          OpReplaceOrInsert 12, OpDelete 20, OpDeleteMax] = Some (rs, t)
       \<and> degree t = nat 2
       \<and> (case root t of
             None \<Rightarrow> True
           | Some r \<Rightarrow> node_shape r \<and> length (items r) \<le> 2 * degree t - 1
                       \<and> (\<forall>c \<in> set (children r). node_bounds (degree t) c)))"
proof -
  have d: "(2 :: int) \<le> 2" "(2 :: int) \<le> 2 ^ 62" by simp_all
  from node_structure [OF swo_nat d] show ?thesis using swo_nat by simp
qed

text \<open>Claim C3. On a tree reached from a fresh one of a degree from 2 to \<open>2 ^ 62\<close>, whose
  ascending scan is \<open>xs\<close>,
  \<^verbatim>\<open>ReplaceOrInsert(item)\<close> returns \<^verbatim>\<open>(prev, true)\<close> exactly when some element of the tree is
  equal to \<open>item\<close> under the order; then \<open>prev\<close> is that element, the scan afterwards is \<open>xs\<close>
  with \<open>item\<close> at the position of \<open>prev\<close>, and \<^verbatim>\<open>Len\<close> is unchanged. Otherwise it returns
  \<^verbatim>\<open>(zero, false)\<close>, the scan afterwards is \<open>xs\<close> with \<open>item\<close> inserted at its place in the
  order, and \<^verbatim>\<open>Len\<close> has grown by one.\<close>

theorem ReplaceOrInsert_result:
  assumes "strict_weak_order lt" and "2 \<le> deg" and "deg \<le> 2 ^ 62"
    and "fresh_run lt zero deg ops = Some (rs, t)"
  shows "\<exists>xs out b t'. Ascend lt t collect [] = Some xs
     \<and> ReplaceOrInsert lt zero t item = Some ((out, b), t')
     \<and> (b \<longleftrightarrow> (\<exists>y \<in> set xs. equiv_items lt y item))
     \<and> (b \<longrightarrow> equiv_items lt out item \<and> Len t' = Len t
          \<and> (\<exists>k < length xs. xs ! k = out \<and> Ascend lt t' collect [] = Some (xs[k := item])))
     \<and> (\<not> b \<longrightarrow> out = zero \<and> Len t' = Len t + 1
          \<and> Ascend lt t' collect [] = Some (ins_list lt item xs)
          \<and> set (ins_list lt item xs) = insert item (set xs)
          \<and> length (ins_list lt item xs) = length xs + 1)"
proof -
  note inv = fresh_run_inv(1) [OF assms(1,4)]
  have small: "int (degree t) \<le> 2 ^ 62"
    using fresh_run_inv(2) [OF assms(1,4)] assms(2,3) by simp
  from ReplaceOrInsert_ok [OF assms(1) inv small, of zero item] obtain out b t' where
    r: "ReplaceOrInsert lt zero t item = Some ((out, b), t')" and inv': "tree_inv lt t'"
    and co: "contents t' = ins_list lt item (contents t)"
    and bq: "b \<longleftrightarrow> (\<exists>y \<in> set (contents t). equiv_items lt y item)"
    and bo: "b \<longrightarrow> out \<in> set (contents t) \<and> equiv_items lt out item"
    and nb: "\<not> b \<longrightarrow> out = zero"
    and ln: "t_length t' = (if b then t_length t else t_length t + 1)" by blast
  note s = sorted_contents [OF inv]
  have hit: "\<exists>k < length (contents t). contents t ! k = out
      \<and> ins_list lt item (contents t) = (contents t)[k := item]" if b
  proof -
    from that bq have "\<exists>y \<in> set (contents t). equiv_items lt y item" by simp
    from ins_list_overwrites [OF assms(1) s this] obtain k where
      k: "k < length (contents t)" "equiv_items lt (contents t ! k) item"
      "ins_list lt item (contents t) = (contents t)[k := item]" by blast
    from that bo have o: "out \<in> set (contents t)" "equiv_items lt out item" by simp_all
    have "contents t ! k = out"
      by (rule equiv_unique [OF assms(1) s _ k(2) o]) (use k(1) in simp)
    with k show ?thesis by blast
  qed
  have miss: "set (ins_list lt item (contents t)) = insert item (set (contents t))
      \<and> length (ins_list lt item (contents t)) = length (contents t) + 1" if "\<not> b"
  proof -
    from that bq have no: "\<not> (\<exists>y \<in> set (contents t). equiv_items lt y item)" by simp
    have "set (ins_list lt item ys) = insert item (set ys)"
      if "\<not> (\<exists>y \<in> set ys. equiv_items lt y item)" for ys
      using that by (induction ys) (auto simp: equiv_items_def)
    with no length_ins_list [OF assms(1) s, of item] show ?thesis by simp
  qed
  show ?thesis
    using r bq bo nb ln hit miss
    by (intro exI [of _ "contents t"] exI [of _ out] exI [of _ b] exI [of _ t'])
       (auto simp: Ascend_collect [OF inv] Ascend_collect [OF inv'] co Len_def)
qed

theorem ReplaceOrInsert_result_witness:
  "strict_weak_order ((<) :: nat \<Rightarrow> nat \<Rightarrow> bool) \<and> (2 :: int) \<le> 2 \<and> (2 :: int) \<le> 2 ^ 62
   \<and> fresh_run (<) (0 :: nat) 2 [OpReplaceOrInsert 10, OpReplaceOrInsert 20]
       = Some ([(0, False), (0, False)],
               \<lparr>degree = 2, t_length = 2, root = Some (Node [10, 20] []),
                t_freelist = \<lparr>freelist = [], capacity = 32\<rparr>\<rparr>)
   \<and> (\<exists>xs out b t'.
         Ascend (<) \<lparr>degree = 2, t_length = 2, root = Some (Node [10, 20 :: nat] []),
                     t_freelist = \<lparr>freelist = [], capacity = 32\<rparr>\<rparr> collect [] = Some xs
       \<and> ReplaceOrInsert (<) 0 \<lparr>degree = 2, t_length = 2, root = Some (Node [10, 20] []),
                     t_freelist = \<lparr>freelist = [], capacity = 32\<rparr>\<rparr> 10 = Some ((out, b), t')
       \<and> (b \<longleftrightarrow> (\<exists>y \<in> set xs. equiv_items (<) y 10))
       \<and> (b \<longrightarrow> equiv_items (<) out 10
            \<and> Len t' = Len \<lparr>degree = 2, t_length = 2, root = Some (Node [10, 20 :: nat] []),
                     t_freelist = \<lparr>freelist = [], capacity = 32\<rparr>\<rparr>
            \<and> (\<exists>k < length xs. xs ! k = out \<and> Ascend (<) t' collect [] = Some (xs[k := 10])))
       \<and> (\<not> b \<longrightarrow> out = 0
            \<and> Len t' = Len \<lparr>degree = 2, t_length = 2, root = Some (Node [10, 20 :: nat] []),
                     t_freelist = \<lparr>freelist = [], capacity = 32\<rparr>\<rparr> + 1
            \<and> Ascend (<) t' collect [] = Some (ins_list (<) 10 xs)
            \<and> set (ins_list (<) 10 xs) = insert 10 (set xs)
            \<and> length (ins_list (<) 10 xs) = length xs + 1))"
proof -
  have d: "(2 :: int) \<le> 2" "(2 :: int) \<le> 2 ^ 62" by simp_all
  have r: "fresh_run (<) (0 :: nat) 2 [OpReplaceOrInsert 10, OpReplaceOrInsert 20]
       = Some ([(0, False), (0, False)],
               \<lparr>degree = 2, t_length = 2, root = Some (Node [10, 20] []),
                t_freelist = \<lparr>freelist = [], capacity = 32\<rparr>\<rparr>)"
    by code_simp
  from ReplaceOrInsert_result [OF swo_nat d r, of 10] show ?thesis
    using swo_nat d r by blast
qed

text \<open>Claim C4. After any sequence of operations on a fresh tree (of a degree from 2 to
  \<open>2 ^ 62\<close>, where every operation returns), \<^verbatim>\<open>Len\<close> is the number of
  \<^verbatim>\<open>ReplaceOrInsert\<close> calls that returned \<^verbatim>\<open>false\<close> minus the number of \<^verbatim>\<open>Delete\<close>,
  \<^verbatim>\<open>DeleteMin\<close> and \<^verbatim>\<open>DeleteMax\<close> calls that returned \<^verbatim>\<open>true\<close>; it is also the number of
  elements a full scan visits.\<close>

theorem Len_counts:
  assumes "strict_weak_order lt" and "2 \<le> deg" and "deg \<le> 2 ^ 62"
  shows "\<exists>rs t xs. fresh_run lt zero deg ops = Some (rs, t) \<and> length rs = length ops
     \<and> Len t = int (inserted ops rs) - int (deleted ops rs)
     \<and> Ascend lt t collect [] = Some xs \<and> Len t = int (length xs)"
proof -
  from fresh_run_ok [OF assms, of zero ops] obtain rs t where
    f: "fresh_run lt zero deg ops = Some (rs, t)" by blast
  then obtain t0 where n: "(New deg :: 'a BTree option) = Some t0"
    and r: "run lt zero t0 ops = Some (rs, t)"
    by (auto simp: fresh_run_def split: bind_splits)
  from New_Some [OF n] have "deg \<le> int_max" by simp
  from tree_inv_New [OF assms(2) this, of lt] n have i0: "tree_inv lt t0" "contents t0 = []"
    by auto
  note inv = fresh_run_inv(1) [OF assms(1) f] and len = fresh_run_inv(3) [OF assms(1) f]
  have "t_length t0 = 0" using i0 by (simp add: tree_inv_def)
  with run_counts [OF assms(1) i0(1) r]
  have "Len t = int (inserted ops rs) - int (deleted ops rs)" by (simp add: Len_def)
  moreover have "Len t = int (length (contents t))" using inv by (simp add: tree_inv_def Len_def)
  ultimately show ?thesis
    using f len Ascend_collect [OF inv]
    by (intro exI [of _ rs] exI [of _ t] exI [of _ "contents t"]) simp
qed

theorem Len_counts_witness:
  "strict_weak_order ((<) :: nat \<Rightarrow> nat \<Rightarrow> bool) \<and> (2 :: int) \<le> 3 \<and> (3 :: int) \<le> 2 ^ 62
   \<and> (\<exists>rs t xs. fresh_run (<) (0 :: nat) 3
         [OpReplaceOrInsert 4, OpReplaceOrInsert 4, OpDelete 9, OpReplaceOrInsert 7, OpDeleteMin,
          OpDeleteMax, OpDeleteMax] = Some (rs, t)
       \<and> length rs = length [OpReplaceOrInsert 4, OpReplaceOrInsert 4, OpDelete 9,
            OpReplaceOrInsert (7 :: nat), OpDeleteMin, OpDeleteMax, OpDeleteMax]
       \<and> Len t = int (inserted [OpReplaceOrInsert 4, OpReplaceOrInsert 4, OpDelete 9,
            OpReplaceOrInsert 7, OpDeleteMin, OpDeleteMax, OpDeleteMax] rs)
          - int (deleted [OpReplaceOrInsert 4, OpReplaceOrInsert 4, OpDelete 9,
            OpReplaceOrInsert 7, OpDeleteMin, OpDeleteMax, OpDeleteMax] rs)
       \<and> Ascend (<) t collect [] = Some xs \<and> Len t = int (length xs))"
proof -
  have d: "(2 :: int) \<le> 3" "(3 :: int) \<le> 2 ^ 62" by simp_all
  from Len_counts [OF swo_nat d] show ?thesis using swo_nat d by blast
qed

text \<open>Claim C5. On the degree-2 tree built by inserting 10, 20, 5, 6, 12, 30, 7, 17 in that
  order, \<^verbatim>\<open>Ascend\<close> visits 5, 6, 7, 10, 12, 17, 20, 30; \<^verbatim>\<open>AscendRange(6, 17)\<close> visits
  6, 7, 10, 12; and \<^verbatim>\<open>DescendRange(17, 6)\<close> visits 17, 12, 10, 7.\<close>

theorem range_scans_example:
  "fresh_run (<) (0 :: nat) 2 (map OpReplaceOrInsert [10, 20, 5, 6, 12, 30, 7, 17]) \<bind>
     (\<lambda>(rs, t). Some (Ascend (<) t collect [], AscendRange (<) t 6 17 collect [],
                      DescendRange (<) t 17 6 collect []))
   = Some (Some [5, 6, 7, 10, 12, 17, 20, 30], Some [6, 7, 10, 12], Some [17, 12, 10, 7])"
  by code_simp

text \<open>Claim C6. On a tree reached from a fresh one that holds no element equal to \<open>item\<close>
  under the order, \<^verbatim>\<open>Delete(item)\<close> returns \<^verbatim>\<open>(zero, false)\<close> without failing, and afterwards
  \<^verbatim>\<open>Len\<close> and the ascending scan are what they were before.\<close>

theorem Delete_absent:
  assumes "strict_weak_order lt" and "2 \<le> deg"
    and "fresh_run lt zero deg ops = Some (rs, t)"
    and "Ascend lt t collect [] = Some xs"
    and "\<forall>y \<in> set xs. \<not> equiv_items lt y item"
  shows "\<exists>t'. Delete lt zero t item = Some ((zero, False), t') \<and> Len t' = Len t
     \<and> Ascend lt t' collect [] = Some xs"
proof -
  note inv = fresh_run_inv(1) [OF assms(1,3)]
  have xs: "xs = contents t" using assms(4) Ascend_collect [OF inv] by simp
  have no: "\<not> (\<exists>y \<in> set (contents t). equiv_items lt y item)" using assms(5) xs by simp
  from deleteItem_ok [OF assms(1) inv, of zero item removeItem] obtain r t' where
    d: "deleteItem lt zero t item removeItem = Some (r, t')" and inv': "tree_inv lt t'"
    and co: "contents t' = removed lt removeItem item (contents t)"
    and r: "r = delete_result lt zero removeItem item (contents t)"
    and ln: "t_length t' = (if snd r then t_length t - 1 else t_length t)" by blast
  have "List.find (\<lambda>y. equiv_items lt y item) (contents t) = None"
    using no by (simp add: find_None_iff)
  then have r0: "r = (zero, False)" using r by (simp add: delete_result_def remove_result_def)
  have "contents t' = contents t" using co del_list_absent [OF no] by (simp add: removed_def)
  with d r0 ln Ascend_collect [OF inv'] xs show ?thesis
    by (intro exI [of _ t']) (simp add: Delete_def Len_def)
qed

theorem Delete_absent_witness:
  "strict_weak_order ((<) :: nat \<Rightarrow> nat \<Rightarrow> bool) \<and> (2 :: int) \<le> 2
   \<and> fresh_run (<) 0 2 (map OpReplaceOrInsert [10, 20, 5, 6, 12, 30, 7, 17])
       = Some (replicate 8 (0, False), example_tree)
   \<and> Ascend (<) example_tree collect [] = Some [5, 6, 7, 10, 12, 17, 20, 30]
   \<and> \<not> (\<exists>y \<in> set [5, 6, 7, 10, 12, 17, 20, 30 :: nat]. equiv_items (<) y 99)
   \<and> (\<exists>t'. Delete (<) 0 example_tree 99 = Some ((0, False), t')
        \<and> Len t' = Len example_tree
        \<and> Ascend (<) t' collect [] = Some [5, 6, 7, 10, 12, 17, 20, 30])"
proof -
  have d: "(2 :: int) \<le> 2" by simp
  have r: "fresh_run (<) 0 2 (map OpReplaceOrInsert [10, 20, 5, 6, 12, 30, 7, 17])
       = Some (replicate 8 (0, False), example_tree)"
    by code_simp
  have a: "Ascend (<) example_tree collect [] = Some [5, 6, 7, 10, 12, 17, 20, 30]"
    by code_simp
  have n: "\<forall>y \<in> set [5, 6, 7, 10, 12, 17, 20, 30 :: nat]. \<not> equiv_items (<) y 99"
    by (simp add: equiv_items_def)
  from Delete_absent [OF swo_nat d r a n] show ?thesis
    using swo_nat d r a n by blast
qed

text \<open>Claim C7. On an ascending, duplicate-free sequence \<open>s\<close>, \<open>items_find\<close> returns
  \<open>(index, found)\<close> where \<open>found\<close> holds exactly when the element at \<open>index\<close> is equal to
  the target under the order (which is exactly when some element of \<open>s\<close> is), and
  otherwise \<open>index\<close> is a position at which inserting the target keeps the sequence
  ascending.\<close>

theorem items_find_correct:
  assumes "strict_weak_order lt" and "sorted_wrt lt s"
    and "items_find lt s target = (index, found)"
  shows "(found \<longleftrightarrow> (index < length s \<and> equiv_items lt (s ! index) target))
       \<and> (found \<longleftrightarrow> (\<exists>x \<in> set s. equiv_items lt x target))
       \<and> (\<not> found \<longrightarrow> index \<le> length s
            \<and> sorted_wrt lt (take index s @ target # drop index s))"
proof (cases found)
  case True
  from assms(3) True have f: "items_find lt s target = (index, True)" by simp
  from items_find_found [OF assms(1,2) f]
  have "index < length s" "equiv_items lt (s ! index) target"
    by (simp_all add: equiv_items_def)
  then show ?thesis using True by auto
next
  case False
  from assms(3) False have f: "items_find lt s target = (index, False)" by simp
  note nf = items_find_not_found [OF assms(1,2) f]
  have lo: "\<forall>x \<in> set (take index s). lt x target"
    using nf(1,2) by (auto simp: in_set_conv_nth)
  have hi: "\<forall>y \<in> set (drop index s). lt target y"
    using nf(1,3) by (auto simp: in_set_conv_nth)
  have no: "\<not> (\<exists>x \<in> set s. equiv_items lt x target)"
    by (rule items_find_no_equiv [OF assms(1,2) f])
  have "\<forall>x \<in> set (take index s). \<forall>y \<in> set (drop index s). lt x y"
    using lo hi assms(1) by (blast intro: swo_trans)
  moreover have "sorted_wrt lt (take index s)" "sorted_wrt lt (drop index s)"
    using assms(2) by simp_all
  ultimately have "sorted_wrt lt (take index s @ target # drop index s)"
    using lo hi by (simp add: sorted_wrt_append)
  moreover have "\<not> (index < length s \<and> equiv_items lt (s ! index) target)"
    using no by (metis nth_mem)
  ultimately show ?thesis using False nf(1) no by blast
qed

theorem items_find_correct_witness:
  "strict_weak_order ((<) :: nat \<Rightarrow> nat \<Rightarrow> bool) \<and> sorted_wrt (<) [1, 3, 5 :: nat]
   \<and> items_find (<) [1, 3, 5 :: nat] 4 = (2, False)
   \<and> sorted_wrt (<) (take 2 [1, 3, 5 :: nat] @ 4 # drop 2 [1, 3, 5])
   \<and> \<not> (\<exists>x \<in> set [1, 3, 5 :: nat]. equiv_items (<) x 4)"
proof -
  have f: "items_find (<) [1, 3, 5 :: nat] 4 = (2, False)" by code_simp
  have s: "sorted_wrt (<) [1, 3, 5 :: nat]" by simp
  from items_find_correct [OF swo_nat s f] show ?thesis using swo_nat s f by simp
qed



text \<open>Claim C10. For every tree and both values of the flag, \<^verbatim>\<open>Clear\<close> sets \<^verbatim>\<open>Len\<close> to 0 and
  the root to \<^verbatim>\<open>nil\<close>, so that every scan returns without calling the callback, every
  lookup finds nothing and every delete removes nothing; the free list is what it was
  before the call, and the flag makes no difference.\<close>

theorem Clear_effect:
  "Len (Clear t b) = 0 \<and> root (Clear t b) = None
   \<and> t_freelist (Clear t b) = t_freelist t \<and> degree (Clear t b) = degree t
   \<and> Clear t True = Clear t False
   \<and> tree_iterate lt (Clear t b) dir start stop includeStart iter s = Some s
   \<and> Ascend lt (Clear t b) iter s = Some s \<and> Descend lt (Clear t b) iter s = Some s
   \<and> AscendRange lt (Clear t b) x y iter s = Some s
   \<and> DescendRange lt (Clear t b) x y iter s = Some s
   \<and> Get lt zero (Clear t b) key = Some (zero, False)
   \<and> Has lt zero (Clear t b) key = Some False
   \<and> BTree_Min zero (Clear t b) = Some (zero, False)
   \<and> BTree_Max zero (Clear t b) = Some (zero, False)
   \<and> deleteItem lt zero (Clear t b) key typ = Some ((zero, False), Clear t b)"
  by (simp add: Len_def Clear_def tree_iterate_def Ascend_def Descend_def AscendRange_def
      DescendRange_def Get_def Has_def BTree_Min_def BTree_Max_def node_min_def node_max_def
      deleteItem_def)

end
